theory Spec2Isabelle
  imports Complex_Main
begin

section \<open>The Go library functions the program calls\<close>

text \<open>
  A Go string is a sequence of bytes, modelled as \<open>string\<close> (a list of 8-bit
  \<open>char\<close>s). A rune is a code point, modelled as a natural number. The tables of
  package \<open>unicode\<close> beyond Latin-1, the image header decoder and the URL check of
  \<open>http.NewRequest\<close> belong to the Go distribution, not to this repository: they are
  the fields of \<open>golib\<close>, and every function below takes them as the parameter \<open>L\<close>.
\<close>

type_synonym rune = nat

record golib =
  Digit_table :: "rune \<Rightarrow> bool"
  White_Space_table :: "rune \<Rightarrow> bool"
  LowerCase_table :: "rune \<Rightarrow> rune"
  UpperCase_table :: "rune \<Rightarrow> rune"
  image_DecodeConfig :: "string \<Rightarrow> ((int \<times> int) \<times> string) option"
  http_NewRequest :: "string \<Rightarrow> bool"

text \<open>
  The errors of the program: the scanner's \<open>ErrTooLong\<close>, a failing reader, the two
  errors of \<open>strconv\<close>, the four ways \<open>download\<close> fails (\<open>ErrStatus\<close> stands for
  \<open>fmt.Errorf("status: %d", ...)\<close>), and \<open>fmt.Errorf\<close> with a fixed message.
\<close>

datatype error =
    ErrTooLong
  | ErrRead
  | ErrSyntax
  | ErrRange
  | ErrNewRequest
  | ErrDo
  | ErrStatus int
  | ErrBody
  | Errorf string

definition byte :: "char \<Rightarrow> nat" where
  "byte c = of_char c"

definition RuneError :: rune where
  "RuneError = 0xFFFD"

subsection \<open>Package unicode/utf8\<close>

text \<open>
  \<open>acceptRange\<close> is the table \<open>first\<close> of package utf8 together with
  \<open>acceptRanges\<close>: for a leading byte, the size of the sequence and the range allowed
  for the second byte; \<open>None\<close> for an ASCII byte and for a byte that starts nothing.
\<close>

definition acceptRange :: "nat \<Rightarrow> (nat \<times> nat \<times> nat) option" where
  "acceptRange s0 =
     (if 0xC2 \<le> s0 \<and> s0 \<le> 0xDF then Some (2, 0x80, 0xBF)
      else if s0 = 0xE0 then Some (3, 0xA0, 0xBF)
      else if 0xE1 \<le> s0 \<and> s0 \<le> 0xEC then Some (3, 0x80, 0xBF)
      else if s0 = 0xED then Some (3, 0x80, 0x9F)
      else if s0 = 0xEE \<or> s0 = 0xEF then Some (3, 0x80, 0xBF)
      else if s0 = 0xF0 then Some (4, 0x90, 0xBF)
      else if 0xF1 \<le> s0 \<and> s0 \<le> 0xF3 then Some (4, 0x80, 0xBF)
      else if s0 = 0xF4 then Some (4, 0x80, 0x8F)
      else None)"

text \<open>\<open>utf8.DecodeRuneInString\<close>: the first rune of \<open>s\<close> and its width in bytes.\<close>

definition DecodeRuneInString :: "string \<Rightarrow> rune \<times> nat" where
  "DecodeRuneInString s =
     (case s of
        [] \<Rightarrow> (RuneError, 0)
      | c0 # cs \<Rightarrow>
          (case acceptRange (byte c0) of
             None \<Rightarrow> (if byte c0 < 0x80 then (byte c0, 1) else (RuneError, 1))
           | Some (sz, lo, hi) \<Rightarrow>
               if length s < sz then (RuneError, 1)
               else if byte (s ! 1) < lo \<or> hi < byte (s ! 1) then (RuneError, 1)
               else if sz \<le> 2 then (byte c0 mod 32 * 64 + byte (s ! 1) mod 64, 2)
               else if byte (s ! 2) < 0x80 \<or> 0xBF < byte (s ! 2) then (RuneError, 1)
               else if sz \<le> 3
                 then (byte c0 mod 16 * 4096 + byte (s ! 1) mod 64 * 64 + byte (s ! 2) mod 64, 3)
               else if byte (s ! 3) < 0x80 \<or> 0xBF < byte (s ! 3) then (RuneError, 1)
               else (byte c0 mod 8 * 262144 + byte (s ! 1) mod 64 * 4096
                       + byte (s ! 2) mod 64 * 64 + byte (s ! 3) mod 64, 4)))"

text \<open>
  \<open>utf8.AppendRune\<close>, which \<open>strings.Builder.WriteRune\<close> calls: a surrogate half or
  a value above \<open>MaxRune\<close> is written as the encoding of \<open>RuneError\<close>.
\<close>

definition EncodeRune :: "rune \<Rightarrow> string" where
  "EncodeRune r =
     (if r \<le> 0x7F then [char_of r]
      else if r \<le> 0x7FF then [char_of (0xC0 + r div 64), char_of (0x80 + r mod 64)]
      else let q = (if 0x10FFFF < r \<or> (0xD800 \<le> r \<and> r \<le> 0xDFFF) then RuneError else r)
        in if q \<le> 0xFFFF
           then [char_of (0xE0 + q div 4096), char_of (0x80 + q div 64 mod 64),
                 char_of (0x80 + q mod 64)]
           else [char_of (0xF0 + q div 262144), char_of (0x80 + q div 4096 mod 64),
                 char_of (0x80 + q div 64 mod 64), char_of (0x80 + q mod 64)])"

text \<open>\<open>utf8.RuneStart\<close>: the byte is not a continuation byte.\<close>

definition RuneStart :: "nat \<Rightarrow> bool" where
  "RuneStart b = (b div 64 \<noteq> 2)"

text \<open>
  \<open>utf8.DecodeLastRuneInString\<close>: the last rune of \<open>s\<close> and its width. The loop of
  the source looks for a rune start among the three bytes before the last one; where it
  finds none it stops one byte before the limit \<open>len(s) - UTFMax\<close>, or at 0.
\<close>

definition DecodeLastRuneInString :: "string \<Rightarrow> rune \<times> nat" where
  "DecodeLastRuneInString s =
     (let n = length s in
      if n = 0 then (RuneError, 0)
      else if byte (s ! (n - 1)) < 0x80 then (byte (s ! (n - 1)), 1)
      else
        let start =
              (if 2 \<le> n \<and> RuneStart (byte (s ! (n - 2))) then n - 2
               else if 3 \<le> n \<and> RuneStart (byte (s ! (n - 3))) then n - 3
               else if 4 \<le> n \<and> RuneStart (byte (s ! (n - 4))) then n - 4
               else n - 5);
            (r, size) = DecodeRuneInString (drop start s)
        in if start + size \<noteq> n then (RuneError, 1) else (r, size))"

subsection \<open>Package unicode\<close>

text \<open>
  Each predicate answers for Latin-1 (for ASCII in the case mappings) by itself and
  looks the other runes up in its table.
\<close>

definition IsDigit :: "golib \<Rightarrow> rune \<Rightarrow> bool" where
  "IsDigit L r = (if r \<le> 0xFF then 0x30 \<le> r \<and> r \<le> 0x39 else Digit_table L r)"

definition IsSpace :: "golib \<Rightarrow> rune \<Rightarrow> bool" where
  "IsSpace L r =
     (if r \<le> 0xFF then r \<in> {0x09, 0x0A, 0x0B, 0x0C, 0x0D, 0x20, 0x85, 0xA0}
      else White_Space_table L r)"

definition unicode_ToLower :: "golib \<Rightarrow> rune \<Rightarrow> rune" where
  "unicode_ToLower L r =
     (if r \<le> 0x7F then (if 0x41 \<le> r \<and> r \<le> 0x5A then r + 0x20 else r)
      else LowerCase_table L r)"

definition unicode_ToUpper :: "golib \<Rightarrow> rune \<Rightarrow> rune" where
  "unicode_ToUpper L r =
     (if r \<le> 0x7F then (if 0x61 \<le> r \<and> r \<le> 0x7A then r - 0x20 else r)
      else UpperCase_table L r)"

subsection \<open>Package strings\<close>

definition HasPrefix :: "string \<Rightarrow> string \<Rightarrow> bool" where
  "HasPrefix s p = (length p \<le> length s \<and> take (length p) s = p)"

text \<open>\<open>strings.Index\<close>: the index of the first occurrence, \<open>None\<close> for Go's -1.\<close>

fun Index :: "string \<Rightarrow> string \<Rightarrow> nat option" where
  "Index [] sub = (if sub = [] then Some 0 else None)"
| "Index (c # cs) sub =
     (if HasPrefix (c # cs) sub then Some 0 else map_option Suc (Index cs sub))"

definition asciiSpace :: "char \<Rightarrow> bool" where
  "asciiSpace c = (byte c \<in> {0x09, 0x0A, 0x0B, 0x0C, 0x0D, 0x20})"

text \<open>
  \<open>strings.TrimLeftFunc\<close> and \<open>strings.TrimRightFunc\<close> with \<open>unicode.IsSpace\<close>. The
  second one walks back with \<open>DecodeLastRuneInString\<close> to the last rune that is no
  space and cuts after that rune, whose width it reads forwards.
\<close>

fun TrimLeftSpace :: "golib \<Rightarrow> string \<Rightarrow> string" where
  "TrimLeftSpace L [] = []"
| "TrimLeftSpace L (c # cs) =
     (let (r, w) = DecodeRuneInString (c # cs)
      in if IsSpace L r then TrimLeftSpace L (drop (w - 1) cs) else c # cs)"

function lastIndexNotSpace :: "golib \<Rightarrow> string \<Rightarrow> nat option" where
  "lastIndexNotSpace L s =
     (if s = [] then None
      else let (r, size) = DecodeLastRuneInString s
        in if \<not> IsSpace L r then Some (length s - size)
           else lastIndexNotSpace L (take (length s - size) (butlast s)))"
  by pat_completeness auto
termination
proof (relation "measure (\<lambda>(L, s). length s)")
  fix L :: golib and s :: string and x :: "rune \<times> nat" and r size :: nat
  assume "s \<noteq> []"
  then have "length (take (length s - size) (butlast s)) < length s"
    by (cases s rule: rev_cases) auto
  then show "((L, take (length s - size) (butlast s)), (L, s)) \<in> measure (\<lambda>(L, s). length s)"
    by simp
qed simp

definition TrimRightSpace :: "golib \<Rightarrow> string \<Rightarrow> string" where
  "TrimRightSpace L s =
     (case lastIndexNotSpace L s of
        None \<Rightarrow> []
      | Some i \<Rightarrow>
          if 0x80 \<le> byte (s ! i) then take (i + snd (DecodeRuneInString (drop i s))) s
          else take (i + 1) s)"

definition TrimFuncSpace :: "golib \<Rightarrow> string \<Rightarrow> string" where
  "TrimFuncSpace L s = TrimRightSpace L (TrimLeftSpace L s)"

text \<open>
  \<open>strings.TrimSpace\<close>: two loops over ASCII bytes, from the start and from the end;
  either one hands over to the Unicode functions at the first byte that is not ASCII.
  The second loop runs here on the reversed string.
\<close>

fun TrimSpace_stop :: "golib \<Rightarrow> string \<Rightarrow> string" where
  "TrimSpace_stop L [] = []"
| "TrimSpace_stop L (c # cs) =
     (if 0x80 \<le> byte c then rev (TrimRightSpace L (rev (c # cs)))
      else if asciiSpace c then TrimSpace_stop L cs
      else c # cs)"

fun TrimSpace :: "golib \<Rightarrow> string \<Rightarrow> string" where
  "TrimSpace L [] = []"
| "TrimSpace L (c # cs) =
     (if 0x80 \<le> byte c then TrimFuncSpace L (c # cs)
      else if asciiSpace c then TrimSpace L cs
      else rev (TrimSpace_stop L (rev (c # cs))))"

text \<open>
  \<open>strings.Map\<close>: every rune of \<open>s\<close>, a byte that decodes to nothing included, is
  replaced by the encoding of its image. (The mappings used here never return a
  negative rune, for which \<open>Map\<close> would drop the character.)
\<close>

fun Map_runes :: "(rune \<Rightarrow> rune) \<Rightarrow> string \<Rightarrow> string" where
  "Map_runes f [] = []"
| "Map_runes f (c # cs) =
     (let (r, w) = DecodeRuneInString (c # cs)
      in EncodeRune (f r) @ Map_runes f (drop (w - 1) cs))"

definition isASCII :: "string \<Rightarrow> bool" where
  "isASCII s = list_all (\<lambda>c. byte c < 0x80) s"

definition ToLower :: "golib \<Rightarrow> string \<Rightarrow> string" where
  "ToLower L s =
     (if isASCII s
      then (if \<not> list_ex (\<lambda>c. 0x41 \<le> byte c \<and> byte c \<le> 0x5A) s then s
            else map (\<lambda>c. if 0x41 \<le> byte c \<and> byte c \<le> 0x5A then char_of (byte c + 0x20) else c) s)
      else Map_runes (unicode_ToLower L) s)"

definition ToUpper :: "golib \<Rightarrow> string \<Rightarrow> string" where
  "ToUpper L s =
     (if isASCII s
      then (if \<not> list_ex (\<lambda>c. 0x61 \<le> byte c \<and> byte c \<le> 0x7A) s then s
            else map (\<lambda>c. if 0x61 \<le> byte c \<and> byte c \<le> 0x7A then char_of (byte c - 0x20) else c) s)
      else Map_runes (unicode_ToUpper L) s)"

text \<open>
  \<open>strings.Split\<close> for a separator that is not empty (the program's only one is
  \<open>"x"\<close>): the pieces between the occurrences of \<open>sep\<close>, found from the left.
\<close>

fun splitFrom :: "string \<Rightarrow> string \<Rightarrow> string \<Rightarrow> string list" where
  "splitFrom cur [] sep = [cur]"
| "splitFrom cur (c # cs) sep =
     (if HasPrefix (c # cs) sep then cur # splitFrom [] (drop (length sep - 1) cs) sep
      else splitFrom (cur @ [c]) cs sep)"

definition Split :: "string \<Rightarrow> string \<Rightarrow> string list" where
  "Split s sep = splitFrom [] s sep"

text \<open>
  \<open>strings.NewReplacer(pairs...).Replace\<close> on pairs whose old strings are not empty:
  at each position the first pair whose old string starts there is applied and the scan
  goes on behind it; a byte where no pair applies is copied.
\<close>

fun Replace :: "(string \<times> string) list \<Rightarrow> string \<Rightarrow> string" where
  "Replace pairs [] = []"
| "Replace pairs (c # cs) =
     (case find (\<lambda>(old, new). old \<noteq> [] \<and> HasPrefix (c # cs) old) pairs of
        Some (old, new) \<Rightarrow> new @ Replace pairs (drop (length old - 1) cs)
      | None \<Rightarrow> c # Replace pairs cs)"

subsection \<open>Package strconv\<close>

text \<open>
  \<open>strconv.Atoi\<close> on a platform whose \<open>int\<close> has 64 bits: an optional sign, then
  decimal digits only; the loop of \<open>ParseUint\<close> stops with \<open>ErrRange\<close> as soon as the
  value leaves 64 bits, and \<open>ParseInt\<close> checks the signed range afterwards.
\<close>

definition isDecimal :: "char \<Rightarrow> bool" where
  "isDecimal c = (0x30 \<le> byte c \<and> byte c \<le> 0x39)"

fun ParseUint_loop :: "int \<Rightarrow> string \<Rightarrow> error + int" where
  "ParseUint_loop n [] = Inr n"
| "ParseUint_loop n (c # cs) =
     (if \<not> isDecimal c then Inl ErrSyntax
      else if 2 ^ 64 div 10 + 1 \<le> n then Inl ErrRange
      else if 2 ^ 64 \<le> n * 10 + (int (byte c) - 0x30) then Inl ErrRange
      else ParseUint_loop (n * 10 + (int (byte c) - 0x30)) cs)"

definition Atoi :: "string \<Rightarrow> error + int" where
  "Atoi s =
     (if s = [] then Inl ErrSyntax
      else let neg = (hd s = CHR ''-'');
               ds = (if hd s = CHR ''-'' \<or> hd s = CHR ''+'' then tl s else s)
        in if ds = [] then Inl ErrSyntax
           else case ParseUint_loop 0 ds of
                  Inl e \<Rightarrow> Inl e
                | Inr un \<Rightarrow>
                    if \<not> neg \<and> 2 ^ 63 \<le> un then Inl ErrRange
                    else if neg \<and> 2 ^ 63 < un then Inl ErrRange
                    else Inr (if neg then - un else un))"

subsection \<open>Package bufio\<close>

text \<open>
  \<open>bufio.Scanner\<close> with the split function \<open>ScanLines\<close>: the input is cut at every
  newline, a last line without newline counts when it is not empty, and one carriage
  return at the end of a line is dropped. A line that does not fit the buffer of
  \<open>MaxScanTokenSize\<close> bytes together with its newline ends the scan with \<open>ErrTooLong\<close>.
\<close>


fun scanLines :: "string \<Rightarrow> string \<Rightarrow> string list" where
  "scanLines cur [] = (if cur = [] then [] else [cur])"
| "scanLines cur (c # cs) =
     (if c = CHR 0x0A then cur # scanLines [] cs else scanLines (cur @ [c]) cs)"

definition dropCR :: "string \<Rightarrow> string" where
  "dropCR s = (if s \<noteq> [] \<and> last s = CHR 0x0D then butlast s else s)"

definition MaxScanTokenSize :: int where
  "MaxScanTokenSize = 65536"

subsection \<open>Integer arithmetic\<close>

text \<open>
  Go's \<open>int\<close> on a 64-bit platform: multiplication wraps around, \<open>/\<close> and \<open>%\<close>
  truncate towards zero, and both panic on a zero divisor (the callers below test the
  divisor first).
\<close>

definition wrap64 :: "int \<Rightarrow> int" where
  "wrap64 x = (x + 2 ^ 63) mod 2 ^ 64 - 2 ^ 63"

definition go_quo :: "int \<Rightarrow> int \<Rightarrow> int" where
  "go_quo a b = sgn a * sgn b * (\<bar>a\<bar> div \<bar>b\<bar>)"

definition go_rem :: "int \<Rightarrow> int \<Rightarrow> int" where
  "go_rem a b = sgn a * (\<bar>a\<bar> mod \<bar>b\<bar>)"

subsection \<open>Package net/http\<close>

text \<open>
  What \<open>client.Do\<close> answers: an error, or a response with a status code and a body
  that \<open>io.ReadAll\<close> reads to the end or fails on. The network is a function of the
  requests made so far and the URL asked for.
\<close>

datatype body = Body string | BodyError

datatype reply = DoError | Response int body

type_synonym network = "string list \<Rightarrow> string \<Rightarrow> reply"

section \<open>Identifier extraction\<close>

text \<open>The loop of \<open>isAllDigits\<close> over the runes of the line.\<close>

fun allDigitsLoop :: "golib \<Rightarrow> string \<Rightarrow> bool" where
  "allDigitsLoop L [] = True"
| "allDigitsLoop L (c # cs) =
     (let (r, w) = DecodeRuneInString (c # cs)
      in if \<not> IsDigit L r then False else allDigitsLoop L (drop (w - 1) cs))"

definition isAllDigits :: "golib \<Rightarrow> string \<Rightarrow> bool" where
  "isAllDigits L s = (if length s = 0 then False else allDigitsLoop L s)"

text \<open>
  The loop of \<open>extractProductCode\<close> over the runes after the marker: every digit is
  written to the builder, the first other rune ends the loop.
\<close>

fun digitsLoop :: "golib \<Rightarrow> string \<Rightarrow> string" where
  "digitsLoop L [] = []"
| "digitsLoop L (c # cs) =
     (let (r, w) = DecodeRuneInString (c # cs)
      in if IsDigit L r then EncodeRune r @ digitsLoop L (drop (w - 1) cs) else [])"

definition target :: string where
  "target = ''urunno=''"

definition extractProductCode :: "golib \<Rightarrow> string \<Rightarrow> string" where
  "extractProductCode L line =
     (if isAllDigits L line then line
      else case Index line target of
             Some idx \<Rightarrow>
               (let rest = drop (idx + length target) line;
                    sb = digitsLoop L rest
                in if 0 < length sb then sb else [])
           | None \<Rightarrow> [])"

text \<open>
  The loop of \<open>scanIDs\<close> over the lines the scanner delivers, and \<open>scanIDs\<close> itself:
  the identifiers found and \<open>scanner.Err()\<close>. The reader delivers \<open>input\<close> and then
  ends with \<open>rerr\<close>, \<open>None\<close> for the end of the file.
\<close>

fun scanLoop :: "golib \<Rightarrow> string list \<Rightarrow> string list \<times> error option" where
  "scanLoop L [] = ([], None)"
| "scanLoop L (raw # raws) =
     (if MaxScanTokenSize \<le> int (length raw) then ([], Some ErrTooLong)
      else let line = TrimSpace L (dropCR raw)
        in if line = [] \<or> HasPrefix line ''#'' then scanLoop L raws
           else let extractedID = extractProductCode L line
             in if extractedID \<noteq> []
                then (extractedID # fst (scanLoop L raws), snd (scanLoop L raws))
                else scanLoop L raws)"

definition scanIDs :: "golib \<Rightarrow> string \<Rightarrow> error option \<Rightarrow> string list \<times> error option" where
  "scanIDs L input rerr =
     (case scanLoop L (scanLines [] input) of
        (ids, Some e) \<Rightarrow> (ids, Some e)
      | (ids, None) \<Rightarrow> (ids, rerr))"

section \<open>Transliteration\<close>

text \<open>
  The twelve pairs of \<open>toASCII\<close>. The source file is UTF-8, so each old string is the
  two-byte encoding of a Turkish letter.
\<close>

definition toASCII_pairs :: "(string \<times> string) list" where
  "toASCII_pairs =
     [([CHR 0xC4, CHR 0x9F], ''g''), ([CHR 0xC4, CHR 0x9E], ''G''),
      ([CHR 0xC3, CHR 0xBC], ''u''), ([CHR 0xC3, CHR 0x9C], ''U''),
      ([CHR 0xC5, CHR 0x9F], ''s''), ([CHR 0xC5, CHR 0x9E], ''S''),
      ([CHR 0xC4, CHR 0xB1], ''i''), ([CHR 0xC4, CHR 0xB0], ''I''),
      ([CHR 0xC3, CHR 0xB6], ''o''), ([CHR 0xC3, CHR 0x96], ''O''),
      ([CHR 0xC3, CHR 0xA7], ''c''), ([CHR 0xC3, CHR 0x87], ''C'')]"

definition toASCII :: "string \<Rightarrow> string" where
  "toASCII s = Replace toASCII_pairs s"

section \<open>Grid size\<close>

definition parseGridSize :: "golib \<Rightarrow> string \<Rightarrow> error + (int \<times> int)" where
  "parseGridSize L v =
     (let clean = ToLower L (TrimSpace L v);
          parts = Split clean ''x''
      in if length parts \<noteq> 2 then Inl (Errorf ''grid size must be rowxcol'')
         else (case Atoi (parts ! 0) of
                 Inl e \<Rightarrow> Inl (Errorf ''row value must be positive'')
               | Inr rows \<Rightarrow>
                   if rows \<le> 0 then Inl (Errorf ''row value must be positive'')
                   else (case Atoi (parts ! 1) of
                           Inl e \<Rightarrow> Inl (Errorf ''column value must be positive'')
                         | Inr cols \<Rightarrow>
                             if cols \<le> 0 then Inl (Errorf ''column value must be positive'')
                             else Inr (rows, cols))))"

section \<open>Image acquisition\<close>

definition drPrimaryURL :: "string \<Rightarrow> string" where
  "drPrimaryURL pid = ''https://i.dr.com.tr/cache/500x400-0/originals/'' @ pid @ ''-1.jpg''"

definition drBackupURL :: "string \<Rightarrow> string" where
  "drBackupURL pid = ''https://i.dr.com.tr/cache/500x400-0/originals/'' @ pid @ ''.jpg''"

definition detectFormat :: "golib \<Rightarrow> string \<Rightarrow> string" where
  "detectFormat L data =
     (case image_DecodeConfig L data of
        None \<Rightarrow> ''JPG''
      | Some (cfg, format) \<Rightarrow>
          if format = ''jpeg'' then ''JPG''
          else if format = ''png'' then ''PNG''
          else ToUpper L format)"

text \<open>
  \<open>download\<close> returns its result and the list of requests sent so far, to which a
  call of \<open>client.Do\<close> adds the URL.
\<close>

definition download :: "golib \<Rightarrow> network \<Rightarrow> string list \<Rightarrow> string \<Rightarrow> (error + string) \<times> string list" where
  "download L net sent url =
     (if \<not> http_NewRequest L url then (Inl ErrNewRequest, sent)
      else case net sent url of
             DoError \<Rightarrow> (Inl ErrDo, sent @ [url])
           | Response status b \<Rightarrow>
               if status \<noteq> 200 then (Inl (ErrStatus status), sent @ [url])
               else (case b of
                       Body data \<Rightarrow> (Inr data, sent @ [url])
                     | BodyError \<Rightarrow> (Inl ErrBody, sent @ [url])))"

definition fetchDRImage :: "golib \<Rightarrow> network \<Rightarrow> string list \<Rightarrow> string \<Rightarrow> (error + string \<times> string) \<times> string list" where
  "fetchDRImage L net sent pid =
     (case download L net sent (drPrimaryURL pid) of
        (Inr data, sent1) \<Rightarrow> (Inr (data, detectFormat L data), sent1)
      | (Inl e, sent1) \<Rightarrow>
          (case download L net sent1 (drBackupURL pid) of
             (Inr data, sent2) \<Rightarrow> (Inr (data, detectFormat L data), sent2)
           | (Inl e', sent2) \<Rightarrow> (Inl (Errorf ''image not found''), sent2)))"

section \<open>The document\<close>

text \<open>
  The calls on the PDF object, in the order \<open>main\<close> makes them. The geometry is
  computed in \<open>float64\<close> from the row and the column of the cell (and, for an image,
  from the width and height of its header); a call is recorded with these integers
  instead of the coordinates. \<open>PlaceImage\<close> stands for \<open>RegisterImageOptionsReader\<close> followed
  by \<open>ImageOptions\<close>, with the item's index for the name \<open>img_i\<close>.
\<close>

datatype draw =
    AddPage
  | Rect int int
  | Text int int string
  | Label int int string
  | PlaceImage int int int string string int int
  | OutputFileAndClose

datatype outcome = Exit int | Return | Panic

record run =
  outcome :: outcome
  requests :: "string list"
  document :: "draw list"

text \<open>
  The loop of \<open>main\<close> over the identifiers, from item \<open>i\<close> on. \<open>Inl\<close> is the panic of
  an integer division by zero.
\<close>

fun renderLoop :: "golib \<Rightarrow> network \<Rightarrow> int \<Rightarrow> int \<Rightarrow> int \<Rightarrow> string list \<Rightarrow> string list \<times> draw list
    \<Rightarrow> (unit + unit) \<times> string list \<times> draw list" where
  "renderLoop L net cols cellsPerPage i [] (sent, pdf) = (Inr (), sent, pdf)"
| "renderLoop L net cols cellsPerPage i (pid # ids) (sent, pdf) =
     (if 0 < i \<and> cellsPerPage = 0 then (Inl (), sent, pdf)
      else let pdf1 = (if 0 < i \<and> go_rem i cellsPerPage = 0 then pdf @ [AddPage] else pdf)
        in if cellsPerPage = 0 then (Inl (), sent, pdf1)
           else let pageIndex = go_rem i cellsPerPage
             in if cols = 0 then (Inl (), sent, pdf1)
                else let row = go_quo pageIndex cols;
                         col = go_rem pageIndex cols;
                         pdf2 = pdf1 @ [Rect row col]
                  in case fetchDRImage L net sent pid of
                       (Inr (imgData, format), sent1) \<Rightarrow>
                         (case image_DecodeConfig L imgData of
                            None \<Rightarrow>
                              renderLoop L net cols cellsPerPage (i + 1) ids
                                (sent1, pdf2 @ [Text row col (toASCII ''INVALID FORMAT'')])
                          | Some ((width, height), f) \<Rightarrow>
                              renderLoop L net cols cellsPerPage (i + 1) ids
                                (sent1, pdf2 @ [PlaceImage row col i format imgData width height]))
                     | (Inl e, sent1) \<Rightarrow>
                         renderLoop L net cols cellsPerPage (i + 1) ids
                           (sent1, pdf2 @ [Text row col (toASCII ''NOT FOUND''),
                                           Label row col (toASCII pid)]))"

text \<open>
  \<open>main\<close>, from the parsed flags on: \<open>sizeFlag\<close> is the value of \<open>-size\<close>, \<open>opened\<close>
  is \<open>None\<close> when the input file cannot be opened and otherwise what the reader (the
  file or standard input) delivers. Console output and the name of the output file are
  left out.
\<close>

definition main :: "golib \<Rightarrow> network \<Rightarrow> string \<Rightarrow> (string \<times> error option) option \<Rightarrow> run" where
  "main L net sizeFlag opened =
     (case parseGridSize L sizeFlag of
        Inl e \<Rightarrow> \<lparr>outcome = Exit 1, requests = [], document = []\<rparr>
      | Inr (rows, cols) \<Rightarrow>
          (case opened of
             None \<Rightarrow> \<lparr>outcome = Exit 1, requests = [], document = []\<rparr>
           | Some (input, rerr) \<Rightarrow>
               (case scanIDs L input rerr of
                  (ids, Some e) \<Rightarrow> \<lparr>outcome = Return, requests = [], document = []\<rparr>
                | (ids, None) \<Rightarrow>
                    if length ids = 0 then \<lparr>outcome = Return, requests = [], document = []\<rparr>
                    else (case renderLoop L net cols (wrap64 (rows * cols)) 0 ids ([], [AddPage]) of
                            (Inl u, sent1, pdf1) \<Rightarrow> \<lparr>outcome = Panic, requests = sent1, document = pdf1\<rparr>
                          | (Inr u, sent1, pdf1) \<Rightarrow>
                              \<lparr>outcome = Return, requests = sent1, document = pdf1 @ [OutputFileAndClose]\<rparr>))))"

text \<open>
  Reading a run: the number of pages started, and for every cell border drawn the page it
  is on (counted from 0) with its row and column.
\<close>

definition pageCount :: "draw list \<Rightarrow> nat" where
  "pageCount ds = length (filter (\<lambda>d. d = AddPage) ds)"

fun cellsFrom :: "int \<Rightarrow> draw list \<Rightarrow> (int \<times> int \<times> int) list" where
  "cellsFrom p [] = []"
| "cellsFrom p (AddPage # ds) = cellsFrom (p + 1) ds"
| "cellsFrom p (Rect row col # ds) = (p - 1, row, col) # cellsFrom p ds"
| "cellsFrom p (d # ds) = cellsFrom p ds"

definition cells :: "draw list \<Rightarrow> (int \<times> int \<times> int) list" where
  "cells ds = cellsFrom 0 ds"

section \<open>Notions used in the statements\<close>

text \<open>
  An attempt succeeds when \<open>client.Do\<close> returns a response of status 200 whose body
  can be read to the end; \<open>payload\<close> is then the body.
\<close>

definition payload :: "reply \<Rightarrow> string option" where
  "payload rp =
     (case rp of
        DoError \<Rightarrow> None
      | Response status b \<Rightarrow>
          (if status = 200 then (case b of Body data \<Rightarrow> Some data | BodyError \<Rightarrow> None)
           else None))"




text \<open>
  A part of the grid size reads as the positive integer \<open>n\<close>: an optional plus sign,
  then decimal digits only, whose value is \<open>n\<close>, positive and within \<open>int\<close>.
\<close>

fun decimalValue :: "int \<Rightarrow> string \<Rightarrow> int" where
  "decimalValue n [] = n"
| "decimalValue n (c # cs) = decimalValue (n * 10 + (int (byte c) - 0x30)) cs"

definition positiveDecimal :: "string \<Rightarrow> int \<Rightarrow> bool" where
  "positiveDecimal p n =
     (p \<noteq> [] \<and>
      (let ds = (if hd p = CHR ''+'' then tl p else p)
       in ds \<noteq> [] \<and> list_all isDecimal ds \<and> n = decimalValue 0 ds \<and> 0 < n \<and> n < 2 ^ 63))"

text \<open>
  What the loop draws inside a cell after its border: a text, a label or an image.
\<close>

definition cellContent :: "draw \<Rightarrow> bool" where
  "cellContent d = (case d of Text r c t \<Rightarrow> True | Label r c t \<Rightarrow> True
     | PlaceImage r c i f b w h \<Rightarrow> True | _ \<Rightarrow> False)"

text \<open>
  The cell of item \<open>i\<close> on a grid of \<open>R\<close> rows and \<open>C\<close> columns: the page, the row and
  the column.
\<close>

definition cellOf :: "int \<Rightarrow> int \<Rightarrow> nat \<Rightarrow> int \<times> int \<times> int" where
  "cellOf R C i = (int i div (R * C), int i mod (R * C) div C, int i mod (R * C) mod C)"

text \<open>
  A rune the encoder writes as itself: at most \<open>MaxRune\<close> and no surrogate half.
\<close>

definition validRune :: "rune \<Rightarrow> bool" where
  "validRune r = (r \<le> 0x10FFFF \<and> \<not> (0xD800 \<le> r \<and> r \<le> 0xDFFF))"

text \<open>
  The range \<open>acceptRange\<close> allows for the second byte of a sequence of three or of
  four bytes, as functions of the leading byte.
\<close>

definition lo3 :: "nat \<Rightarrow> nat" where "lo3 b = (if b = 0xE0 then 0xA0 else 0x80)"
definition hi3 :: "nat \<Rightarrow> nat" where "hi3 b = (if b = 0xED then 0x9F else 0xBF)"
definition lo4 :: "nat \<Rightarrow> nat" where "lo4 b = (if b = 0xF0 then 0x90 else 0x80)"
definition hi4 :: "nat \<Rightarrow> nat" where "hi4 b = (if b = 0xF4 then 0x8F else 0xBF)"

text \<open>
  The runes of a string as a \<open>range\<close> loop meets them, each with the bytes it was
  decoded from.
\<close>

fun runes :: "string \<Rightarrow> (rune \<times> string) list" where
  "runes [] = []"
| "runes (c # cs) =
     (let (r, w) = DecodeRuneInString (c # cs)
      in (r, take w (c # cs)) # runes (drop (w - 1) cs))"

text \<open>
  A line made solely of decimal digits, and the maximal run of decimal digits at the
  start of a string; a decimal digit is a rune that \<open>unicode.IsDigit\<close> accepts.
\<close>

definition solelyDigits :: "golib \<Rightarrow> string \<Rightarrow> bool" where
  "solelyDigits L s = (s \<noteq> [] \<and> list_all (\<lambda>(r, b). IsDigit L r) (runes s))"

definition digitRun :: "golib \<Rightarrow> string \<Rightarrow> string" where
  "digitRun L s = concat (map snd (takeWhile (\<lambda>(r, b). IsDigit L r) (runes s)))"

text \<open>
  The rules for one trimmed line in their order of priority: a blank line and a line that
  starts with \<open>#\<close> give nothing, a line of digits gives itself, otherwise the digits
  behind the first marker are the identifier when there is at least one.
\<close>

definition lineRule :: "golib \<Rightarrow> string \<Rightarrow> string option" where
  "lineRule L line =
     (if line = [] \<or> HasPrefix line ''#'' then None
      else if solelyDigits L line then Some line
      else case Index line ''urunno='' of
             None \<Rightarrow> None
           | Some idx \<Rightarrow>
               (let run = digitRun L (drop (idx + length ''urunno='') line)
                in if run = [] then None else Some run))"

text \<open>
  Two facts about the tables of package \<open>unicode\<close> that hold for every version of
  Unicode: the replacement character U+FFFD is no digit, and no digit is white space.
\<close>

definition tablesOK :: "golib \<Rightarrow> bool" where
  "tablesOK L = (\<not> Digit_table L 0xFFFD \<and> (\<forall>r. Digit_table L r \<longrightarrow> \<not> White_Space_table L r))"

text \<open>
  The identifiers written one per line, with a newline between two of them, as
  \<open>strings.Join\<close> writes them.
\<close>

fun joinLines :: "string list \<Rightarrow> string" where
  "joinLines [] = []"
| "joinLines [s] = s"
| "joinLines (s # t # ts) = s @ CHR 0x0A # joinLines (t # ts)"

text \<open>
  A small library and a small network on which the program can be run: the digits of
  the table are the Arabic-Indic ones, its only space is the ideographic space, the
  decoder knows a JPEG and a GIF by their first bytes, and a URL is refused when it holds
  a control character.
\<close>

definition sampleLib :: golib where
  "sampleLib =
     \<lparr>Digit_table = (\<lambda>r. 0x660 \<le> r \<and> r \<le> 0x669),
      White_Space_table = (\<lambda>r. r = 0x3000),
      LowerCase_table = (\<lambda>r. r),
      UpperCase_table = (\<lambda>r. r),
      image_DecodeConfig =
        (\<lambda>d. if take 2 d = [CHR 0xFF, CHR 0xD8] then Some ((400, 500), ''jpeg'')
             else if take 3 d = ''GIF'' then Some ((1, 1), ''gif'')
             else None),
      http_NewRequest = (\<lambda>u. list_all (\<lambda>c. 0x20 \<le> byte c \<and> byte c \<noteq> 0x7F) u)\<rparr>"

definition sampleNet :: network where
  "sampleNet done url =
     (if url = drPrimaryURL ''1'' then Response 200 (Body [CHR 0xFF, CHR 0xD8, CHR 0xFF])
      else if url = drBackupURL ''2'' then Response 200 (Body ''GIF89a'')
      else if url = drPrimaryURL ''3'' then Response 200 (Body ''<html>'')
      else if url = drPrimaryURL ''4'' then Response 404 (Body [])
      else DoError)"

section \<open>Transliteration of the Turkish letters\<close>














section \<open>Format detection\<close>

lemma EncodeRune_not_Nil: "EncodeRune r \<noteq> []"
  by (simp add: EncodeRune_def Let_def)

lemma ToUpper_not_Nil: "s \<noteq> [] \<Longrightarrow> ToUpper L s \<noteq> []"
  by (cases s) (auto simp: ToUpper_def EncodeRune_not_Nil split: prod.splits)

text \<open>
  C7: \<open>detectFormat\<close> answers \<open>JPG\<close> when the header cannot be decoded or the format
  is \<open>jpeg\<close>, \<open>PNG\<close> when it is \<open>png\<close>, and the format in upper case otherwise. It has
  a result for every payload, and the tag is not empty, given that the decoder names the
  format it has recognised (the names registered with package \<open>image\<close> are not empty).
\<close>

theorem detectFormat_tag:
  assumes "\<And>cfg f. image_DecodeConfig L d = Some (cfg, f) \<Longrightarrow> f \<noteq> []"
  shows "(image_DecodeConfig L d = None \<longrightarrow> detectFormat L d = ''JPG'')
       \<and> (\<forall>cfg. image_DecodeConfig L d = Some (cfg, ''jpeg'') \<longrightarrow> detectFormat L d = ''JPG'')
       \<and> (\<forall>cfg. image_DecodeConfig L d = Some (cfg, ''png'') \<longrightarrow> detectFormat L d = ''PNG'')
       \<and> (\<forall>cfg f. image_DecodeConfig L d = Some (cfg, f) \<and> f \<noteq> ''jpeg'' \<and> f \<noteq> ''png''
             \<longrightarrow> detectFormat L d = ToUpper L f)
       \<and> detectFormat L d \<noteq> []"
proof -
  have "detectFormat L d \<noteq> []"
  proof (cases "image_DecodeConfig L d")
    case None
    then show ?thesis by (simp add: detectFormat_def)
  next
    case (Some a)
    obtain cfg f where a: "a = (cfg, f)" by (cases a)
    with Some assms have "f \<noteq> []" by blast
    then have "ToUpper L f \<noteq> []" by (rule ToUpper_not_Nil)
    with Some a show ?thesis by (simp add: detectFormat_def)
  qed
  then show ?thesis by (simp add: detectFormat_def)
qed

theorem detectFormat_tag_witness:
  "detectFormat sampleLib ''GIF89a'' = ''GIF'' \<and> detectFormat sampleLib ''<html>'' = ''JPG''"
proof -
  have h: "\<And>cfg f. image_DecodeConfig sampleLib ''GIF89a'' = Some (cfg, f) \<Longrightarrow> f \<noteq> []"
    by (simp add: sampleLib_def)
  have g: "image_DecodeConfig sampleLib ''GIF89a'' = Some ((1, 1), ''gif'')"
    by (simp add: sampleLib_def)
  have u: "ToUpper sampleLib ''gif'' = ''GIF''" by code_simp
  have n: "detectFormat sampleLib ''<html>'' = ''JPG''" by code_simp
  from detectFormat_tag [of sampleLib "''GIF89a''", OF h] g u n show ?thesis by simp
qed

section \<open>Primary and backup URL\<close>

text \<open>
  C4: for an identifier whose two URLs make well-formed requests, \<open>fetchDRImage\<close> asks
  for the primary URL first. When that attempt succeeds it returns the bytes and has
  sent one request. Otherwise it asks for the backup URL once: when this succeeds the
  result is the backup's bytes and the requests sent are the primary and the backup, in
  this order; when it fails too the result is the error \<open>image not found\<close>, after
  these two requests and no other.
\<close>

theorem fetchDRImage_fallback:
  assumes "http_NewRequest L (drPrimaryURL pid)" and "http_NewRequest L (drBackupURL pid)"
  shows "fetchDRImage L net done pid =
     (case payload (net done (drPrimaryURL pid)) of
        Some data \<Rightarrow> (Inr (data, detectFormat L data), done @ [drPrimaryURL pid])
      | None \<Rightarrow>
          (case payload (net (done @ [drPrimaryURL pid]) (drBackupURL pid)) of
             Some data \<Rightarrow>
               (Inr (data, detectFormat L data), done @ [drPrimaryURL pid, drBackupURL pid])
           | None \<Rightarrow>
               (Inl (Errorf ''image not found''), done @ [drPrimaryURL pid, drBackupURL pid])))"
  using assms
  by (simp add: fetchDRImage_def download_def payload_def split: reply.splits body.splits)

theorem fetchDRImage_fallback_witness:
  "fetchDRImage sampleLib sampleNet [] ''2'' =
     (Inr (''GIF89a'', ''GIF''), [drPrimaryURL ''2'', drBackupURL ''2''])
   \<and> fetchDRImage sampleLib sampleNet [] ''5'' =
     (Inl (Errorf ''image not found''), [drPrimaryURL ''5'', drBackupURL ''5''])"
proof -
  have p2: "http_NewRequest sampleLib (drPrimaryURL ''2'')" by code_simp
  have b2: "http_NewRequest sampleLib (drBackupURL ''2'')" by code_simp
  have p5: "http_NewRequest sampleLib (drPrimaryURL ''5'')" by code_simp
  have b5: "http_NewRequest sampleLib (drBackupURL ''5'')" by code_simp
  have n1: "payload (sampleNet [] (drPrimaryURL ''2'')) = None" by code_simp
  have n2: "payload (sampleNet [drPrimaryURL ''2''] (drBackupURL ''2'')) = Some ''GIF89a''"
    by code_simp
  have n3: "payload (sampleNet [] (drPrimaryURL ''5'')) = None" by code_simp
  have n4: "payload (sampleNet [drPrimaryURL ''5''] (drBackupURL ''5'')) = None" by code_simp
  have f: "detectFormat sampleLib ''GIF89a'' = ''GIF''" by code_simp
  show ?thesis
    using fetchDRImage_fallback [OF p2 b2, of sampleNet "[]"]
          fetchDRImage_fallback [OF p5 b5, of sampleNet "[]"]
    by (simp add: n1 n2 n3 n4 f)
qed

section \<open>A payload whose header cannot be decoded\<close>

text \<open>
  C5, as the loop of \<open>main\<close> has it: when the bytes fetched for an item have a header
  that cannot be decoded, their format tag is \<open>JPG\<close>, and the item's cell gets its
  border and the text \<open>INVALID FORMAT\<close>; no image is placed, and the loop goes on with
  the next item.
\<close>

theorem undecodable_payload_placeholder:
  assumes "fetchDRImage L net done pid = (Inr (data, format), done1)"
      and "image_DecodeConfig L data = None"
      and "cellsPerPage \<noteq> 0" and "cols \<noteq> 0"
  shows "format = ''JPG'' \<and>
     renderLoop L net cols cellsPerPage i (pid # ids) (done, pdf) =
       renderLoop L net cols cellsPerPage (i + 1) ids
         (done1, (if 0 < i \<and> go_rem i cellsPerPage = 0 then pdf @ [AddPage] else pdf)
                 @ [Rect (go_quo (go_rem i cellsPerPage) cols) (go_rem (go_rem i cellsPerPage) cols),
                    Text (go_quo (go_rem i cellsPerPage) cols) (go_rem (go_rem i cellsPerPage) cols)
                      ''INVALID FORMAT''])"
proof -
  have t: "toASCII ''INVALID FORMAT'' = ''INVALID FORMAT''" by code_simp
  from assms(1) have "format = detectFormat L data"
    by (auto simp: fetchDRImage_def split: prod.splits sum.splits)
  with assms(2) have "format = ''JPG''" by (simp add: detectFormat_def)
  then show ?thesis using assms by (simp add: Let_def t)
qed

theorem undecodable_payload_placeholder_witness:
  "renderLoop sampleLib sampleNet 1 1 0 [''3''] ([], [AddPage]) =
     (Inr (), [drPrimaryURL ''3''], [AddPage, Rect 0 0, Text 0 0 ''INVALID FORMAT''])"
proof -
  have f: "fetchDRImage sampleLib sampleNet [] ''3'' = (Inr (''<html>'', ''JPG''), [drPrimaryURL ''3''])"
    by code_simp
  have d: "image_DecodeConfig sampleLib ''<html>'' = None" by code_simp
  have q: "go_quo (go_rem 0 1) 1 = 0" "go_rem (go_rem 0 1) 1 = 0" by code_simp+
  show ?thesis
    using undecodable_payload_placeholder [OF f d, of 1 1 0 "[]" "[AddPage]"]
    by (simp add: q)
qed

text \<open>
  A run of the whole program on one identifier whose image is an HTML page: the tag is
  \<open>JPG\<close>, and the document holds the page, the border and the placeholder text, and
  no image.
\<close>

theorem undecodable_payload_counterexample:
  "detectFormat sampleLib ''<html>'' = ''JPG'' \<and>
   main sampleLib sampleNet ''1x1'' (Some (''3'', None)) =
     \<lparr>outcome = Return, requests = [drPrimaryURL ''3''],
      document = [AddPage, Rect 0 0, Text 0 0 ''INVALID FORMAT'', OutputFileAndClose]\<rparr>"
  by code_simp

section \<open>Parsing the grid size\<close>

lemma decimalValue_mono:
  "list_all isDecimal cs \<Longrightarrow> 0 \<le> n \<Longrightarrow> n \<le> decimalValue n cs"
proof (induction cs arbitrary: n)
  case Nil
  show ?case by simp
next
  case (Cons c cs)
  from Cons.prems have d: "0 \<le> int (byte c) - 0x30" by (simp add: isDecimal_def)
  with Cons.prems have "n \<le> n * 10 + (int (byte c) - 0x30)" by simp
  moreover have "n * 10 + (int (byte c) - 0x30) \<le> decimalValue (n * 10 + (int (byte c) - 0x30)) cs"
    using Cons.prems d by (intro Cons.IH) simp_all
  ultimately show ?case by simp
qed

lemma ParseUint_loop_Inr:
  "0 \<le> n \<Longrightarrow> n < 2 ^ 64 \<Longrightarrow>
   (ParseUint_loop n ds = Inr m) = (list_all isDecimal ds \<and> decimalValue n ds = m \<and> m < 2 ^ 64)"
proof (induction ds arbitrary: n)
  case Nil
  then show ?case by auto
next
  case (Cons c cs)
  let ?n1 = "n * 10 + (int (byte c) - 0x30)"
  show ?case
  proof (cases "isDecimal c")
    case False
    then show ?thesis by simp
  next
    case True
    then have d: "0 \<le> int (byte c) - 0x30" by (simp add: isDecimal_def)
    show ?thesis
    proof (cases "2 ^ 64 div 10 + 1 \<le> n \<or> 2 ^ 64 \<le> ?n1")
      case True
      with d have big: "2 ^ 64 \<le> ?n1" by auto
      have "list_all isDecimal cs \<Longrightarrow> ?n1 \<le> decimalValue ?n1 cs"
        using d Cons.prems by (intro decimalValue_mono) simp_all
      with big have "\<not> (list_all isDecimal cs \<and> decimalValue ?n1 cs = m \<and> m < 2 ^ 64)"
        by auto
      with True \<open>isDecimal c\<close> show ?thesis by auto
    next
      case False
      then have "ParseUint_loop n (c # cs) = ParseUint_loop ?n1 cs"
        using \<open>isDecimal c\<close> by simp
      moreover have "(ParseUint_loop ?n1 cs = Inr m) =
          (list_all isDecimal cs \<and> decimalValue ?n1 cs = m \<and> m < 2 ^ 64)"
        using False d Cons.prems by (intro Cons.IH) simp_all
      ultimately show ?thesis using \<open>isDecimal c\<close> by simp
    qed
  qed
qed

lemma isDecimal_not_sign: "isDecimal c \<Longrightarrow> c \<noteq> CHR ''-'' \<and> c \<noteq> CHR ''+''"
  by (auto simp: isDecimal_def byte_def)

lemma Atoi_positive: "(Atoi p = Inr n \<and> 0 < n) = positiveDecimal p n"
proof (cases p)
  case Nil
  then show ?thesis by (simp add: Atoi_def positiveDecimal_def)
next
  case (Cons c cs)
  have loop: "\<And>ds m. (ParseUint_loop 0 ds = Inr m) =
      (list_all isDecimal ds \<and> decimalValue 0 ds = m \<and> m < 2 ^ 64)"
    by (rule ParseUint_loop_Inr) simp_all
  have nonneg: "\<And>ds. list_all isDecimal ds \<Longrightarrow> 0 \<le> decimalValue 0 ds"
    using decimalValue_mono [of _ 0] by simp
  show ?thesis
  proof (cases "c = CHR ''-''")
    case True
    have "\<not> (Atoi p = Inr n \<and> 0 < n)"
    proof
      assume a: "Atoi p = Inr n \<and> 0 < n"
      then obtain un where "ParseUint_loop 0 cs = Inr un" "n = - un"
        using Cons True by (auto simp: Atoi_def Let_def split: sum.splits if_splits)
      with loop nonneg have "n \<le> 0" by auto
      with a show False by simp
    qed
    moreover have "\<not> positiveDecimal p n"
      using Cons True isDecimal_not_sign by (auto simp: positiveDecimal_def)
    ultimately show ?thesis by simp
  next
    case False
    let ?ds = "if c = CHR ''+'' then cs else c # cs"
    have "(Atoi p = Inr n \<and> 0 < n) =
        (?ds \<noteq> [] \<and> (\<exists>un. ParseUint_loop 0 ?ds = Inr un \<and> un < 2 ^ 63 \<and> n = un \<and> 0 < n))"
      using Cons False by (auto simp: Atoi_def Let_def split: sum.splits)
    also have "\<dots> = (?ds \<noteq> [] \<and> list_all isDecimal ?ds \<and> n = decimalValue 0 ?ds \<and> 0 < n \<and> n < 2 ^ 63)"
      unfolding loop by auto
    also have "\<dots> = positiveDecimal p n"
      using Cons by (simp add: positiveDecimal_def)
    finally show ?thesis .
  qed
qed

text \<open>
  C8: \<open>parseGridSize\<close> returns \<open>(rows, cols)\<close> exactly when the input, trimmed and in
  lower case, splits at \<open>x\<close> into two parts that read as the positive integers \<open>rows\<close>
  and \<open>cols\<close>. For every other input it returns an error, and \<open>main\<close> then exits with
  status 1 before it has sent any request or drawn anything.
\<close>

theorem parseGridSize_exact:
  "(parseGridSize L v = Inr (rows, cols)) =
     (\<exists>p0 p1. Split (ToLower L (TrimSpace L v)) ''x'' = [p0, p1]
        \<and> positiveDecimal p0 rows \<and> positiveDecimal p1 cols)
   \<and> ((\<forall>rc. parseGridSize L v \<noteq> Inr rc) \<longrightarrow>
        (\<exists>e. parseGridSize L v = Inl e)
        \<and> main L net v opened = \<lparr>outcome = Exit 1, requests = [], document = []\<rparr>)"
proof -
  let ?parts = "Split (ToLower L (TrimSpace L v)) ''x''"
  have two: "length ?parts = 2 \<Longrightarrow> ?parts = [?parts ! 0, ?parts ! 1]"
    by (cases ?parts; cases "tl ?parts") auto
  have "(parseGridSize L v = Inr (rows, cols)) =
      (length ?parts = 2 \<and> (Atoi (?parts ! 0) = Inr rows \<and> 0 < rows)
         \<and> (Atoi (?parts ! 1) = Inr cols \<and> 0 < cols))"
    by (auto simp: parseGridSize_def Let_def split: sum.splits)
  also have "\<dots> = (\<exists>p0 p1. ?parts = [p0, p1] \<and> positiveDecimal p0 rows \<and> positiveDecimal p1 cols)"
    unfolding Atoi_positive using two by auto
  finally have first: "(parseGridSize L v = Inr (rows, cols)) =
     (\<exists>p0 p1. ?parts = [p0, p1] \<and> positiveDecimal p0 rows \<and> positiveDecimal p1 cols)" .
  have second: "(\<forall>rc. parseGridSize L v \<noteq> Inr rc) \<longrightarrow>
        (\<exists>e. parseGridSize L v = Inl e)
        \<and> main L net v opened = \<lparr>outcome = Exit 1, requests = [], document = []\<rparr>"
    by (cases "parseGridSize L v") (auto simp: main_def)
  from first second show ?thesis by blast
qed

theorem parseGridSize_exact_witness:
  "parseGridSize sampleLib '' 3X6 '' = Inr (3, 6)
   \<and> main sampleLib sampleNet ''3x0'' (Some (''1'', None))
       = \<lparr>outcome = Exit 1, requests = [], document = []\<rparr>"
proof -
  have s: "Split (ToLower sampleLib (TrimSpace sampleLib '' 3X6 '')) ''x'' = [''3'', ''6'']"
    by code_simp
  have p: "positiveDecimal ''3'' 3" "positiveDecimal ''6'' 6" by code_simp+
  have n: "\<forall>rc. parseGridSize sampleLib ''3x0'' \<noteq> Inr rc"
  proof -
    have "parseGridSize sampleLib ''3x0'' = Inl (Errorf ''column value must be positive'')"
      by code_simp
    then show ?thesis by simp
  qed
  from parseGridSize_exact [of sampleLib "'' 3X6 ''" 3 6 sampleNet "Some (''1'', None)"] s p
  have a: "parseGridSize sampleLib '' 3X6 '' = Inr (3, 6)" by blast
  from parseGridSize_exact [of sampleLib "''3x0''" 3 6 sampleNet "Some (''1'', None)"] n
  have b: "main sampleLib sampleNet ''3x0'' (Some (''1'', None))
       = \<lparr>outcome = Exit 1, requests = [], document = []\<rparr>" by blast
  from a b show ?thesis by simp
qed

section \<open>Pages and cells\<close>

lemma go_rem_nonneg: "0 \<le> a \<Longrightarrow> 0 < b \<Longrightarrow> go_rem a b = a mod b"
  by (cases "a = 0") (simp_all add: go_rem_def)

lemma go_quo_nonneg: "0 \<le> a \<Longrightarrow> 0 < b \<Longrightarrow> go_quo a b = a div b"
  by (cases "a = 0") (simp_all add: go_quo_def)

lemma pageCount_append: "pageCount (xs @ ys) = pageCount xs + pageCount ys"
  by (simp add: pageCount_def)

lemma pageCount_Nil: "pageCount [] = 0"
  by (simp add: pageCount_def)

lemma pageCount_Cons: "pageCount (d # ds) = (if d = AddPage then 1 else 0) + pageCount ds"
  by (simp add: pageCount_def)

lemma pageCount_content: "list_all cellContent ds \<Longrightarrow> pageCount ds = 0"
  by (induction ds) (auto simp: pageCount_def cellContent_def split: draw.splits)

lemma cellsFrom_content: "list_all cellContent ds \<Longrightarrow> cellsFrom p ds = []"
  by (induction ds) (auto simp: cellContent_def split: draw.splits)

lemma cellsFrom_append:
  "cellsFrom p (xs @ ys) = cellsFrom p xs @ cellsFrom (p + int (pageCount xs)) ys"
proof (induction xs arbitrary: p)
  case Nil
  show ?case by (simp add: pageCount_def)
next
  case (Cons d xs)
  show ?case by (cases d) (simp_all add: Cons.IH pageCount_def add.assoc)
qed

lemma renderLoop_step:
  assumes "0 < cpp" and "0 < cols" and "0 \<le> i"
  shows "\<exists>sent1 content. list_all cellContent content \<and>
     renderLoop L net cols cpp i (pid # ids) (sent, pdf) =
       renderLoop L net cols cpp (i + 1) ids
         (sent1, (if 0 < i \<and> i mod cpp = 0 then pdf @ [AddPage] else pdf)
                 @ Rect (i mod cpp div cols) (i mod cpp mod cols) # content)"
proof -
  have m: "go_rem i cpp = i mod cpp" using assms by (simp add: go_rem_nonneg)
  have "0 \<le> i mod cpp" using assms by simp
  then have q: "go_quo (i mod cpp) cols = i mod cpp div cols"
    and r: "go_rem (i mod cpp) cols = i mod cpp mod cols"
    using assms by (simp_all add: go_rem_nonneg go_quo_nonneg)
  obtain res sent1 where f: "fetchDRImage L net sent pid = (res, sent1)"
    by (cases "fetchDRImage L net sent pid")
  show ?thesis
  proof (cases res)
    case (Inl e)
    with f m q r assms show ?thesis
      by (intro exI [of _ sent1]
            exI [of _ "[Text (i mod cpp div cols) (i mod cpp mod cols) (toASCII ''NOT FOUND''),
                        Label (i mod cpp div cols) (i mod cpp mod cols) (toASCII pid)]"])
         (simp add: cellContent_def Let_def)
  next
    case (Inr b)
    obtain imgData format where b: "b = (imgData, format)" by (cases b)
    show ?thesis
    proof (cases "image_DecodeConfig L imgData")
      case None
      with f m q r assms Inr b show ?thesis
        by (intro exI [of _ sent1]
              exI [of _ "[Text (i mod cpp div cols) (i mod cpp mod cols) (toASCII ''INVALID FORMAT'')]"])
           (simp add: cellContent_def Let_def)
    next
      case (Some a)
      obtain width height fm where a: "a = ((width, height), fm)" by (cases a) auto
      with Some f m q r assms Inr b show ?thesis
        by (intro exI [of _ sent1]
              exI [of _ "[PlaceImage (i mod cpp div cols) (i mod cpp mod cols) i format imgData width height]"])
           (simp add: cellContent_def Let_def)
    qed
  qed
qed

lemma div_pred:
  assumes "0 < (c::int)" and "0 < i"
  shows "(i - 1) div c = (if i mod c = 0 then i div c - 1 else i div c)"
proof (cases "i mod c = 0")
  case True
  have "i - 1 = c * (i div c - 1) + (c - 1)"
    using True by (simp add: algebra_simps) (metis mult_div_mod_eq add.right_neutral)
  moreover have "0 \<le> c - 1" "c - 1 < c" using assms by simp_all
  ultimately have "(i - 1) div c = i div c - 1"
    by (metis int_div_pos_eq)
  with True show ?thesis by simp
next
  case False
  have "0 \<le> i mod c" using assms by simp
  with False have pos: "0 < i mod c" by simp
  have "i - 1 = c * (i div c) + (i mod c - 1)" by simp
  moreover have "0 \<le> i mod c - 1" using pos by simp
  moreover
  have "i mod c < c" using assms by simp
  then have "i mod c - 1 < c" by simp
  ultimately have "(i - 1) div c = i div c"
    by (metis int_div_pos_eq)
  with False show ?thesis by simp
qed

lemma renderLoop_pages:
  assumes "0 < cpp" and "0 < cols"
      and "int (pageCount pdf) = (if k = 0 then 1 else (int k - 1) div cpp + 1)"
  shows "\<exists>sent' pdf'.
     renderLoop L net cols cpp (int k) ids (sent, pdf) = (Inr (), sent', pdf')
     \<and> int (pageCount pdf') =
         (if k + length ids = 0 then 1 else (int (k + length ids) - 1) div cpp + 1)
     \<and> cells pdf' = cells pdf @
         map (\<lambda>j. (int j div cpp, int j mod cpp div cols, int j mod cpp mod cols))
           [k ..< k + length ids]"
  using assms(3)
proof (induction ids arbitrary: k sent pdf)
  case Nil
  then show ?case by simp
next
  case (Cons pid ids)
  let ?A = "if 0 < int k \<and> int k mod cpp = 0 then pdf @ [AddPage] else pdf"
  let ?row = "int k mod cpp div cols" and ?col = "int k mod cpp mod cols"
  from renderLoop_step [OF assms(1,2), of "int k" L net pid ids sent pdf]
  obtain sent1 content where c: "list_all cellContent content"
    and step: "renderLoop L net cols cpp (int k) (pid # ids) (sent, pdf) =
       renderLoop L net cols cpp (int k + 1) ids (sent1, ?A @ Rect ?row ?col # content)"
    by auto
  let ?pdf1 = "?A @ Rect ?row ?col # content"
  have pA: "int (pageCount ?A) = int k div cpp + 1"
  proof (cases "k = 0")
    case True
    with Cons.prems show ?thesis by simp
  next
    case False
    then have "0 < int k" by simp
    with Cons.prems False div_pred [OF assms(1) this] show ?thesis
      by (auto simp: pageCount_append pageCount_def)
  qed
  have cA: "cells ?A = cells pdf"
    by (simp add: cells_def cellsFrom_append)
  have p1: "int (pageCount ?pdf1) = (if Suc k = 0 then 1 else (int (Suc k) - 1) div cpp + 1)"
    using pA c by (simp add: pageCount_append pageCount_Cons pageCount_content)
  have c1: "cells ?pdf1 = cells pdf @ [(int k div cpp, ?row, ?col)]"
    using pA cA c by (simp add: cells_def cellsFrom_append cellsFrom_content)
  from Cons.IH [OF p1, of sent1]
  obtain sent' pdf' where
    r: "renderLoop L net cols cpp (int (Suc k)) ids (sent1, ?pdf1) = (Inr (), sent', pdf')"
    and pc: "int (pageCount pdf') =
         (if Suc k + length ids = 0 then 1 else (int (Suc k + length ids) - 1) div cpp + 1)"
    and ce: "cells pdf' = cells ?pdf1 @
         map (\<lambda>j. (int j div cpp, int j mod cpp div cols, int j mod cpp mod cols))
           [Suc k ..< Suc k + length ids]"
    by blast
  have e: "int (Suc k) = int k + 1" by simp
  have "renderLoop L net cols cpp (int k) (pid # ids) (sent, pdf) = (Inr (), sent', pdf')"
    using step r [unfolded e] by (rule trans)
  moreover have "int (pageCount pdf') =
      (if k + length (pid # ids) = 0 then 1 else (int (k + length (pid # ids)) - 1) div cpp + 1)"
    using pc by simp
  moreover have "cells pdf' = cells pdf @
         map (\<lambda>j. (int j div cpp, int j mod cpp div cols, int j mod cpp mod cols))
           [k ..< k + length (pid # ids)]"
  proof -
    have u: "[k ..< k + length (pid # ids)] = k # [Suc k ..< Suc k + length ids]"
      by (subst upt_rec) simp
    from ce c1 show ?thesis unfolding u by simp
  qed
  ultimately show ?case by blast
qed


lemma wrap64_small: "0 \<le> x \<Longrightarrow> x < 2 ^ 63 \<Longrightarrow> wrap64 x = x"
  by (simp add: wrap64_def)

lemma cellOf_inj:
  assumes "0 < C" and "cellOf R C i = cellOf R C j"
  shows "i = j"
proof -
  from assms(2) have d: "int i div (R * C) = int j div (R * C)"
    and a: "int i mod (R * C) div C = int j mod (R * C) div C"
    and b: "int i mod (R * C) mod C = int j mod (R * C) mod C"
    by (simp_all add: cellOf_def)
  from a b have "int i mod (R * C) = int j mod (R * C)"
    by (metis mult_div_mod_eq)
  with d have "int i = int j"
    by (metis mult_div_mod_eq)
  then show ?thesis by simp
qed

lemma ceiling_pages:
  assumes "0 < (c::int)" and "0 < n"
  shows "\<lceil>real_of_int n / real_of_int c\<rceil> = (n - 1) div c + 1"
proof -
  have "\<lceil>real_of_int n / real_of_int c\<rceil> = - (- n div c)"
    by (rule ceiling_divide_eq_div)
  also have "\<dots> = (if n mod c = 0 then n div c else n div c + 1)"
    using assms by (simp add: zdiv_zminus1_eq_if)
  also have "\<dots> = (n - 1) div c + 1"
    using div_pred [OF assms] by simp
  finally show ?thesis .
qed

text \<open>
  C1, for a grid whose number of cells fits \<open>int\<close>: when the grid size parses to \<open>R\<close> rows
  and \<open>C\<close> columns with \<open>R * C < 2^63\<close> and the input yields \<open>N\<close> identifiers, \<open>main\<close>
  runs to its end, starts exactly \<open>ceil(N / (R*C))\<close> pages (none for no identifier; one
  first page, and one more at each \<open>i > 0\<close> with \<open>i mod (R*C) = 0\<close>), and draws the border of
  item \<open>i\<close> on page \<open>i div (R*C)\<close> in row \<open>(i mod (R*C)) div C\<close> and column
  \<open>(i mod (R*C)) mod C\<close>. No two items get the same page, row and column.
\<close>

theorem main_pages:
  assumes "parseGridSize L sizeFlag = Inr (R, C)"
      and "scanIDs L input rerr = (ids, None)"
      and "R * C < 2 ^ 63"
  shows "outcome (main L net sizeFlag (Some (input, rerr))) = Return
     \<and> int (pageCount (document (main L net sizeFlag (Some (input, rerr)))))
         = \<lceil>real (length ids) / real_of_int (R * C)\<rceil>
     \<and> cells (document (main L net sizeFlag (Some (input, rerr))))
         = map (cellOf R C) [0 ..< length ids]
     \<and> distinct (map (cellOf R C) [0 ..< length ids])"
proof -
  from assms(1) have pos: "0 < R" "0 < C"
    by (auto simp: parseGridSize_def Let_def split: sum.splits if_splits)
  then have cpp: "0 < R * C" by simp
  with assms(3) have w: "wrap64 (R * C) = R * C" by (simp add: wrap64_small)
  have inj: "distinct (map (cellOf R C) [0 ..< length ids])"
    using cellOf_inj [OF pos(2)] by (auto simp: distinct_map inj_on_def)
  show ?thesis
  proof (cases "ids = []")
    case True
    with assms(1,2) inj show ?thesis
      by (simp add: main_def pageCount_def cells_def)
  next
    case False
    have "int (pageCount [AddPage]) = (if (0::nat) = 0 then 1 else (int 0 - 1) div (R * C) + 1)"
      by (simp add: pageCount_def)
    from renderLoop_pages [OF cpp pos(2) this, of L net ids "[]"]
    obtain sent' pdf' where
      r: "renderLoop L net C (R * C) 0 ids ([], [AddPage]) = (Inr (), sent', pdf')"
      and pc: "int (pageCount pdf') = (int (length ids) - 1) div (R * C) + 1"
      and ce: "cells pdf' = map (cellOf R C) [0 ..< length ids]"
      using False by (auto simp: cells_def cellOf_def [abs_def])
    have m: "main L net sizeFlag (Some (input, rerr)) =
        \<lparr>outcome = Return, requests = sent', document = pdf' @ [OutputFileAndClose]\<rparr>"
      using assms(1,2) False r w by (simp add: main_def)
    have n: "0 < int (length ids)" using False by simp
    have "\<lceil>real (length ids) / real_of_int (R * C)\<rceil> = (int (length ids) - 1) div (R * C) + 1"
      using ceiling_pages [OF cpp n] by simp
    with pc ce inj show ?thesis
      unfolding m by (simp add: pageCount_append pageCount_Cons pageCount_Nil cells_def cellsFrom_append)
  qed
qed

theorem main_pages_witness:
  "int (pageCount (document (main sampleLib sampleNet ''1x2''
      (Some (''1'' @ [CHR 0x0A] @ ''2'' @ [CHR 0x0A] @ ''3'', None))))) = 2
   \<and> cells (document (main sampleLib sampleNet ''1x2''
      (Some (''1'' @ [CHR 0x0A] @ ''2'' @ [CHR 0x0A] @ ''3'', None))))
       = [(0, 0, 0), (0, 0, 1), (1, 0, 0)]"
proof -
  have a: "parseGridSize sampleLib ''1x2'' = Inr (1, 2)" by code_simp
  have b: "scanIDs sampleLib (''1'' @ [CHR 0x0A] @ ''2'' @ [CHR 0x0A] @ ''3'') None
      = ([''1'', ''2'', ''3''], None)" by code_simp
  have c: "(1::int) * 2 < 2 ^ 63" by simp
  have d: "map (cellOf 1 2) [0 ..< length [''1'', ''2'', ''3'']] = [(0, 0, 0), (0, 0, 1), (1, 0, 0)]"
    by code_simp
  have e: "\<lceil>real (length [''1'', ''2'', ''3'']) / real_of_int (1 * 2)\<rceil> = 2"
    by simp
  from main_pages [OF a b c, of sampleNet] show ?thesis
    unfolding d e by blast
qed

text \<open>
  Rows and columns whose product does not fit: \<open>2^32\<close> times \<open>2^32\<close> wraps around to 0
  cells per page, and the first item ends the run with a division by zero, before any
  border is drawn.
\<close>

theorem main_pages_counterexample:
  "outcome (main sampleLib sampleNet ''4294967296x4294967296'' (Some (''1'', None))) = Panic
   \<and> cells (document (main sampleLib sampleNet ''4294967296x4294967296'' (Some (''1'', None)))) = []"
  by code_simp

section \<open>UTF-8 and the loops over runes\<close>

lemma byte_less: "byte c < 256"
  by (simp add: byte_def)

lemma char_of_byte: "char_of (byte c) = c"
  by (simp add: byte_def)

lemma byte_char_of: "n < 256 \<Longrightarrow> byte (char_of n) = n"
  by (simp add: byte_def)

lemma acceptRange_low: "b < 0xC2 \<Longrightarrow> acceptRange b = None"
  by (simp add: acceptRange_def)

lemma acceptRange_high: "0xF4 < b \<Longrightarrow> acceptRange b = None"
  by (simp add: acceptRange_def)

lemma acceptRange_two: "0xC2 \<le> b \<Longrightarrow> b \<le> 0xDF \<Longrightarrow> acceptRange b = Some (2, 0x80, 0xBF)"
  by (simp add: acceptRange_def)

lemma acceptRange_three:
  "0xE0 \<le> b \<Longrightarrow> b \<le> 0xEF \<Longrightarrow> acceptRange b = Some (3, lo3 b, hi3 b)"
  by (simp add: acceptRange_def lo3_def hi3_def)

lemma acceptRange_four:
  "0xF0 \<le> b \<Longrightarrow> b \<le> 0xF4 \<Longrightarrow> acceptRange b = Some (4, lo4 b, hi4 b)"
  by (simp add: acceptRange_def lo4_def hi4_def)

lemma Decode_ascii: "byte c0 < 0x80 \<Longrightarrow> DecodeRuneInString (c0 # cs) = (byte c0, 1)"
  by (simp add: DecodeRuneInString_def acceptRange_low)

lemma Decode_invalid:
  assumes "0x80 \<le> byte c0" and "byte c0 < 0xC2 \<or> 0xF4 < byte c0"
  shows "DecodeRuneInString (c0 # cs) = (RuneError, 1)"
proof -
  from assms(2) have "acceptRange (byte c0) = None"
    using acceptRange_low acceptRange_high by blast
  with assms(1) show ?thesis by (simp add: DecodeRuneInString_def)
qed

lemma Decode_two:
  "0xC2 \<le> byte c0 \<Longrightarrow> byte c0 \<le> 0xDF \<Longrightarrow>
   DecodeRuneInString (c0 # cs) =
     (case cs of
        [] \<Rightarrow> (RuneError, 1)
      | c1 # _ \<Rightarrow> if byte c1 < 0x80 \<or> 0xBF < byte c1 then (RuneError, 1)
                  else (byte c0 mod 32 * 64 + byte c1 mod 64, 2))"
  by (simp add: DecodeRuneInString_def acceptRange_two split: list.splits)

lemma Decode_three:
  "0xE0 \<le> byte c0 \<Longrightarrow> byte c0 \<le> 0xEF \<Longrightarrow>
   DecodeRuneInString (c0 # cs) =
     (case cs of
        c1 # c2 # _ \<Rightarrow>
          if byte c1 < lo3 (byte c0) \<or> hi3 (byte c0) < byte c1 then (RuneError, 1)
          else if byte c2 < 0x80 \<or> 0xBF < byte c2 then (RuneError, 1)
          else (byte c0 mod 16 * 4096 + byte c1 mod 64 * 64 + byte c2 mod 64, 3)
      | _ \<Rightarrow> (RuneError, 1))"
  by (simp add: DecodeRuneInString_def acceptRange_three split: list.splits)

lemma Decode_four:
  "0xF0 \<le> byte c0 \<Longrightarrow> byte c0 \<le> 0xF4 \<Longrightarrow>
   DecodeRuneInString (c0 # cs) =
     (case cs of
        c1 # c2 # c3 # _ \<Rightarrow>
          if byte c1 < lo4 (byte c0) \<or> hi4 (byte c0) < byte c1 then (RuneError, 1)
          else if byte c2 < 0x80 \<or> 0xBF < byte c2 then (RuneError, 1)
          else if byte c3 < 0x80 \<or> 0xBF < byte c3 then (RuneError, 1)
          else (byte c0 mod 8 * 262144 + byte c1 mod 64 * 4096
                  + byte c2 mod 64 * 64 + byte c3 mod 64, 4)
      | _ \<Rightarrow> (RuneError, 1))"
  by (simp add: DecodeRuneInString_def acceptRange_four split: list.splits)

lemma base64_two:
  fixes x y :: nat
  assumes "y < 64"
  shows "(x * 64 + y) div 64 = x" and "(x * 64 + y) mod 64 = y"
  using assms by simp_all

lemma base64_three:
  fixes x y z :: nat
  assumes "y < 64" and "z < 64"
  shows "(x * 4096 + y * 64 + z) div 4096 = x"
    and "(x * 4096 + y * 64 + z) div 64 mod 64 = y"
    and "(x * 4096 + y * 64 + z) mod 64 = z"
proof -
  have e: "x * 4096 + y * 64 + z = (x * 64 + y) * 64 + z" by simp
  show "(x * 4096 + y * 64 + z) mod 64 = z"
    unfolding e by (rule base64_two(2) [OF assms(2)])
  have d: "(x * 4096 + y * 64 + z) div 64 = x * 64 + y"
    unfolding e by (rule base64_two(1) [OF assms(2)])
  show "(x * 4096 + y * 64 + z) div 64 mod 64 = y"
    unfolding d by (rule base64_two(2) [OF assms(1)])
  have "(x * 4096 + y * 64 + z) div 4096 = (x * 4096 + y * 64 + z) div 64 div 64"
    by (simp add: div_mult2_eq [symmetric])
  also have "\<dots> = x"
    unfolding d by (rule base64_two(1) [OF assms(1)])
  finally show "(x * 4096 + y * 64 + z) div 4096 = x" .
qed

lemma base64_four:
  fixes x y z u :: nat
  assumes "y < 64" and "z < 64" and "u < 64"
  shows "(x * 262144 + y * 4096 + z * 64 + u) div 262144 = x"
    and "(x * 262144 + y * 4096 + z * 64 + u) div 4096 mod 64 = y"
    and "(x * 262144 + y * 4096 + z * 64 + u) div 64 mod 64 = z"
    and "(x * 262144 + y * 4096 + z * 64 + u) mod 64 = u"
proof -
  let ?r = "x * 262144 + y * 4096 + z * 64 + u"
  let ?q = "x * 4096 + y * 64 + z"
  have e: "?r = ?q * 64 + u" by simp
  show "?r mod 64 = u"
    unfolding e by (rule base64_two(2) [OF assms(3)])
  have d: "?r div 64 = ?q"
    unfolding e by (rule base64_two(1) [OF assms(3)])
  show "?r div 64 mod 64 = z"
    unfolding d by (rule base64_three(3) [OF assms(1,2)])
  have "?r div 4096 = ?r div 64 div 64"
    by (simp add: div_mult2_eq [symmetric])
  also have "\<dots> = ?q div 64" unfolding d ..
  finally have d2: "?r div 4096 = ?q div 64" .
  show "?r div 4096 mod 64 = y"
    unfolding d2 by (rule base64_three(2) [OF assms(1,2)])
  have "?r div 262144 = ?r div 64 div 4096"
    by (simp add: div_mult2_eq [symmetric])
  also have "\<dots> = x"
    unfolding d by (rule base64_three(1) [OF assms(1,2)])
  finally show "?r div 262144 = x" .
qed

lemma digits_three:
  fixes r :: nat
  shows "r = r div 4096 * 4096 + r div 64 mod 64 * 64 + r mod 64"
proof -
  define q where "q = r div 64"
  define a where "a = q div 64"
  define b where "b = q mod 64"
  define c where "c = r mod 64"
  have "r = q * 64 + c" by (simp add: q_def c_def)
  moreover have "q = a * 64 + b" by (simp add: a_def b_def)
  ultimately have "r = a * 4096 + b * 64 + c" by linarith
  moreover have "a = r div 4096" by (simp add: a_def q_def div_mult2_eq [symmetric])
  ultimately show ?thesis by (simp only: b_def c_def q_def)
qed

lemma digits_four:
  fixes r :: nat
  shows "r = r div 262144 * 262144 + r div 4096 mod 64 * 4096 + r div 64 mod 64 * 64 + r mod 64"
proof -
  define q where "q = r div 64"
  define a where "a = q div 4096"
  define b where "b = q div 64 mod 64"
  define c where "c = q mod 64"
  define d where "d = r mod 64"
  have "r = q * 64 + d" by (simp add: q_def d_def)
  moreover have "q = a * 4096 + b * 64 + c"
    unfolding a_def b_def c_def by (rule digits_three)
  ultimately have "r = a * 262144 + b * 4096 + c * 64 + d" by linarith
  moreover have "a = r div 262144" by (simp add: a_def q_def div_mult2_eq [symmetric])
  moreover have "q div 64 = r div 4096" by (simp add: q_def div_mult2_eq [symmetric])
  ultimately show ?thesis by (simp only: b_def c_def d_def q_def)
qed

lemma mod_above:
  fixes b k m :: nat
  assumes "k * m \<le> b" and "b < k * m + m"
  shows "b mod m = b - k * m"
proof -
  have "(b - k * m + k * m) mod m = (b - k * m) mod m" by (rule mod_mult_self1)
  moreover have "b - k * m + k * m = b" using assms by simp
  moreover have "b - k * m < m" using assms by simp
  ultimately show ?thesis by simp
qed

lemma lead_two: "0xC2 \<le> b \<Longrightarrow> b \<le> 0xDF \<Longrightarrow> b mod 32 = b - (0xC0::nat)"
  using mod_above [of 6 32 b] by simp

lemma lead_three: "0xE0 \<le> b \<Longrightarrow> b \<le> 0xEF \<Longrightarrow> b mod 16 = b - (0xE0::nat)"
  using mod_above [of 14 16 b] by simp

lemma lead_four: "0xF0 \<le> b \<Longrightarrow> b \<le> 0xF4 \<Longrightarrow> b mod 8 = b - (0xF0::nat)"
  using mod_above [of 30 8 b] by simp

lemma continuation: "0x80 \<le> b \<Longrightarrow> b \<le> 0xBF \<Longrightarrow> b mod 64 = b - (0x80::nat)"
  using mod_above [of 2 64 b] by simp

lemma div_bounds:
  fixes r n lo hi :: nat
  assumes "lo * n \<le> r" and "r < hi * n" and "0 < n"
  shows "lo \<le> r div n" and "r div n < hi"
proof -
  from assms(1,3) show "lo \<le> r div n"
    by (metis div_le_mono nonzero_mult_div_cancel_right less_numeral_extra(3))
  from assms(2) show "r div n < hi"
    by (rule less_mult_imp_div_less)
qed

lemma Encode_one: "r \<le> 0x7F \<Longrightarrow> EncodeRune r = [char_of r]"
  by (simp add: EncodeRune_def)

lemma Encode_two:
  "0x80 \<le> r \<Longrightarrow> r \<le> 0x7FF \<Longrightarrow>
   EncodeRune r = [char_of (0xC0 + r div 64), char_of (0x80 + r mod 64)]"
  by (simp add: EncodeRune_def)

lemma Encode_three:
  assumes "0x800 \<le> r" and "r \<le> 0xFFFF" and "\<not> (0xD800 \<le> r \<and> r \<le> 0xDFFF)"
  shows "EncodeRune r = [char_of (0xE0 + r div 4096), char_of (0x80 + r div 64 mod 64),
                         char_of (0x80 + r mod 64)]"
proof -
  have "\<not> (0x10FFFF < r \<or> (0xD800 \<le> r \<and> r \<le> 0xDFFF))"
    using assms(2,3) by linarith
  then have "(if 0x10FFFF < r \<or> (0xD800 \<le> r \<and> r \<le> 0xDFFF) then RuneError else r) = r"
    by (rule if_not_P)
  with assms(1,2) show ?thesis
    by (simp add: EncodeRune_def Let_def)
qed

lemma Encode_four:
  "0x10000 \<le> r \<Longrightarrow> r \<le> 0x10FFFF \<Longrightarrow>
   EncodeRune r = [char_of (0xF0 + r div 262144), char_of (0x80 + r div 4096 mod 64),
                   char_of (0x80 + r div 64 mod 64), char_of (0x80 + r mod 64)]"
  by (simp add: EncodeRune_def)

text \<open>The three digits of a rune between 0x800 and 0xFFFF that is no surrogate half.\<close>

lemma three_digits:
  fixes r :: nat
  assumes "0x800 \<le> r" and "r \<le> 0xFFFF" and "\<not> (0xD800 \<le> r \<and> r \<le> 0xDFFF)"
  defines "x \<equiv> r div 4096" and "y \<equiv> r div 64 mod 64" and "z \<equiv> r mod 64"
  shows "r = x * 4096 + y * 64 + z" and "x \<le> 15" and "y < 64" and "z < 64"
    and "x = 0 \<longrightarrow> 32 \<le> y" and "x = 13 \<longrightarrow> y < 32"
proof -
  show r: "r = x * 4096 + y * 64 + z"
    unfolding x_def y_def z_def by (rule digits_three)
  show y: "y < 64" and z: "z < 64" by (simp_all add: y_def z_def)
  from r assms(2) show "x \<le> 15" by linarith
  from r assms(1) y z show "x = 0 \<longrightarrow> 32 \<le> y" by auto
  from r assms(3) y z show "x = 13 \<longrightarrow> y < 32" by auto
qed

lemma Decode_Encode_three:
  assumes "0x800 \<le> r" and "r \<le> 0xFFFF" and "\<not> (0xD800 \<le> r \<and> r \<le> 0xDFFF)"
  shows "DecodeRuneInString (EncodeRune r @ t) = (r, 3)"
proof -
  define x where "x = r div 4096"
  define y where "y = r div 64 mod 64"
  define z where "z = r mod 64"
  note d = three_digits [OF assms, folded x_def y_def z_def]
  define c0 where "c0 = char_of (0xE0 + x)"
  define c1 where "c1 = char_of (0x80 + y)"
  define c2 where "c2 = char_of (0x80 + z)"
  have b0: "byte c0 = 0xE0 + x" unfolding c0_def using d(2) by (intro byte_char_of) simp
  have b1: "byte c1 = 0x80 + y" unfolding c1_def using d(3) by (intro byte_char_of) simp
  have b2: "byte c2 = 0x80 + z" unfolding c2_def using d(4) by (intro byte_char_of) simp
  have enc: "EncodeRune r = [c0, c1, c2]"
    unfolding c0_def c1_def c2_def x_def y_def z_def by (rule Encode_three [OF assms])
  have lo: "lo3 (byte c0) \<le> byte c1" using d(5) by (auto simp: b0 b1 lo3_def)
  have hi: "byte c1 \<le> hi3 (byte c0)" using d(3,6) by (auto simp: b0 b1 hi3_def)
  have m0: "byte c0 mod 16 = x" using lead_three [of "byte c0"] d(2) by (simp add: b0)
  have m1: "byte c1 mod 64 = y" using continuation [of "byte c1"] d(3) by (simp add: b1)
  have m2: "byte c2 mod 64 = z" using continuation [of "byte c2"] d(4) by (simp add: b2)
  have "DecodeRuneInString (c0 # c1 # c2 # t) =
      (byte c0 mod 16 * 4096 + byte c1 mod 64 * 64 + byte c2 mod 64, 3)"
    using lo hi d(2,4) by (subst Decode_three) (simp_all add: b0 b2)
  then show ?thesis unfolding enc m0 m1 m2 using d(1) by simp
qed

lemma Decode_Encode_one:
  assumes "r \<le> 0x7F"
  shows "DecodeRuneInString (EncodeRune r @ t) = (r, 1)"
proof -
  have "byte (char_of r) = r" using assms by (intro byte_char_of) simp
  with assms show ?thesis by (simp add: Encode_one Decode_ascii)
qed

lemma Decode_Encode_two:
  assumes "0x80 \<le> r" and "r \<le> 0x7FF"
  shows "DecodeRuneInString (EncodeRune r @ t) = (r, 2)"
proof -
  define x where "x = r div 64"
  define y where "y = r mod 64"
  have xb: "2 \<le> x" "x < 32"
    unfolding x_def using assms div_bounds [of 2 64 r 32] by simp_all
  have y: "y < 64" by (simp add: y_def)
  have r: "r = x * 64 + y" by (simp add: x_def y_def)
  define c0 where "c0 = char_of (0xC0 + x)"
  define c1 where "c1 = char_of (0x80 + y)"
  have b0: "byte c0 = 0xC0 + x" unfolding c0_def using xb by (intro byte_char_of) simp
  have b1: "byte c1 = 0x80 + y" unfolding c1_def using y by (intro byte_char_of) simp
  have enc: "EncodeRune r = [c0, c1]"
    unfolding c0_def c1_def x_def y_def by (rule Encode_two [OF assms])
  have m0: "byte c0 mod 32 = x" using lead_two [of "byte c0"] xb by (simp add: b0)
  have m1: "byte c1 mod 64 = y" using continuation [of "byte c1"] y by (simp add: b1)
  have "DecodeRuneInString (c0 # c1 # t) = (byte c0 mod 32 * 64 + byte c1 mod 64, 2)"
    using xb y by (subst Decode_two) (simp_all add: b0 b1)
  then show ?thesis unfolding enc m0 m1 using r by simp
qed

lemma four_digits:
  fixes r :: nat
  assumes "0x10000 \<le> r" and "r \<le> 0x10FFFF"
  defines "x \<equiv> r div 262144" and "y \<equiv> r div 4096 mod 64" and "z \<equiv> r div 64 mod 64"
    and "u \<equiv> r mod 64"
  shows "r = x * 262144 + y * 4096 + z * 64 + u" and "x \<le> 4" and "y < 64" and "z < 64"
    and "u < 64" and "x = 0 \<longrightarrow> 16 \<le> y" and "x = 4 \<longrightarrow> y < 16"
proof -
  show r: "r = x * 262144 + y * 4096 + z * 64 + u"
    unfolding x_def y_def z_def u_def by (rule digits_four)
  show y: "y < 64" and z: "z < 64" and u: "u < 64" by (simp_all add: y_def z_def u_def)
  from r assms(2) show "x \<le> 4" by linarith
  from r assms(1) y z u show "x = 0 \<longrightarrow> 16 \<le> y" by auto
  from r assms(2) y z u show "x = 4 \<longrightarrow> y < 16" by auto
qed

lemma Decode_Encode_four:
  assumes "0x10000 \<le> r" and "r \<le> 0x10FFFF"
  shows "DecodeRuneInString (EncodeRune r @ t) = (r, 4)"
proof -
  define x where "x = r div 262144"
  define y where "y = r div 4096 mod 64"
  define z where "z = r div 64 mod 64"
  define u where "u = r mod 64"
  note d = four_digits [OF assms, folded x_def y_def z_def u_def]
  define c0 where "c0 = char_of (0xF0 + x)"
  define c1 where "c1 = char_of (0x80 + y)"
  define c2 where "c2 = char_of (0x80 + z)"
  define c3 where "c3 = char_of (0x80 + u)"
  have b0: "byte c0 = 0xF0 + x" unfolding c0_def using d(2) by (intro byte_char_of) simp
  have b1: "byte c1 = 0x80 + y" unfolding c1_def using d(3) by (intro byte_char_of) simp
  have b2: "byte c2 = 0x80 + z" unfolding c2_def using d(4) by (intro byte_char_of) simp
  have b3: "byte c3 = 0x80 + u" unfolding c3_def using d(5) by (intro byte_char_of) simp
  have enc: "EncodeRune r = [c0, c1, c2, c3]"
    unfolding c0_def c1_def c2_def c3_def x_def y_def z_def u_def by (rule Encode_four [OF assms])
  have lo: "lo4 (byte c0) \<le> byte c1" using d(6) by (auto simp: b0 b1 lo4_def)
  have hi: "byte c1 \<le> hi4 (byte c0)" using d(3,7) by (auto simp: b0 b1 hi4_def)
  have m0: "byte c0 mod 8 = x" using lead_four [of "byte c0"] d(2) by (simp add: b0)
  have m1: "byte c1 mod 64 = y" using continuation [of "byte c1"] d(3) by (simp add: b1)
  have m2: "byte c2 mod 64 = z" using continuation [of "byte c2"] d(4) by (simp add: b2)
  have m3: "byte c3 mod 64 = u" using continuation [of "byte c3"] d(5) by (simp add: b3)
  have "DecodeRuneInString (c0 # c1 # c2 # c3 # t) =
      (byte c0 mod 8 * 262144 + byte c1 mod 64 * 4096 + byte c2 mod 64 * 64 + byte c3 mod 64, 4)"
    using lo hi d(2,4,5) by (subst Decode_four) (simp_all add: b0 b2 b3)
  then show ?thesis unfolding enc m0 m1 m2 m3 using d(1) by simp
qed

lemma validRune_cases:
  assumes "validRune r"
  obtains (one) "r \<le> 0x7F"
  | (two) "0x80 \<le> r" "r \<le> 0x7FF"
  | (three) "0x800 \<le> r" "r \<le> 0xFFFF" "\<not> (0xD800 \<le> r \<and> r \<le> 0xDFFF)"
  | (four) "0x10000 \<le> r" "r \<le> 0x10FFFF"
  using assms unfolding validRune_def by linarith

lemma length_Encode:
  assumes "validRune r"
  shows "length (EncodeRune r) =
     (if r \<le> 0x7F then 1 else if r \<le> 0x7FF then 2 else if r \<le> 0xFFFF then 3 else 4)"
  using assms
proof (cases rule: validRune_cases)
  case one
  then show ?thesis by (simp add: Encode_one)
next
  case two
  then show ?thesis by (simp add: Encode_two)
next
  case three
  then show ?thesis by (simp add: Encode_three)
next
  case four
  then show ?thesis by (simp add: Encode_four)
qed

lemma Decode_Encode:
  assumes "validRune r"
  shows "DecodeRuneInString (EncodeRune r @ t) = (r, length (EncodeRune r))"
  using assms
proof (cases rule: validRune_cases)
  case one
  from Decode_Encode_one [OF one, of t] show ?thesis by (simp add: Encode_one [OF one])
next
  case two
  from Decode_Encode_two [OF two, of t] show ?thesis by (simp add: Encode_two [OF two])
next
  case three
  from Decode_Encode_three [OF three, of t] show ?thesis by (simp add: Encode_three [OF three])
next
  case four
  from Decode_Encode_four [OF four, of t] show ?thesis by (simp add: Encode_four [OF four])
qed

text \<open>What the decoder can return on a string that is not empty.\<close>

lemma Decode_two_valid:
  assumes "0xC2 \<le> byte c0" "byte c0 \<le> 0xDF" and "0x80 \<le> byte c1" "byte c1 \<le> 0xBF"
  defines "r \<equiv> byte c0 mod 32 * 64 + byte c1 mod 64"
  shows "0x80 \<le> r" and "validRune r" and "EncodeRune r = [c0, c1]"
proof -
  define x where "x = byte c0 - 0xC0"
  define y where "y = byte c1 - 0x80"
  have xb: "2 \<le> x" "x < 32" and y: "y < 64" using assms(1-4) by (simp_all add: x_def y_def)
  have r: "r = x * 64 + y"
    unfolding r_def x_def y_def using lead_two [OF assms(1,2)] continuation [OF assms(3,4)]
    by simp
  from r xb y show lo: "0x80 \<le> r" by linarith
  from r xb y have hi: "r \<le> 0x7FF" by linarith
  then show "validRune r" by (simp add: validRune_def)
  have "r div 64 = x" "r mod 64 = y"
    unfolding r by (rule base64_two [OF y])+
  moreover have "0xC0 + x = byte c0" "0x80 + y = byte c1"
    using assms(1,3) by (simp_all add: x_def y_def)
  ultimately have "0xC0 + r div 64 = byte c0" "0x80 + r mod 64 = byte c1"
    by (simp_all only:)
  with Encode_two [OF lo hi] show "EncodeRune r = [c0, c1]"
    by (simp only: char_of_byte)
qed

lemma Decode_three_valid:
  assumes "0xE0 \<le> byte c0" "byte c0 \<le> 0xEF"
    and "lo3 (byte c0) \<le> byte c1" "byte c1 \<le> hi3 (byte c0)"
    and "0x80 \<le> byte c2" "byte c2 \<le> 0xBF"
  defines "r \<equiv> byte c0 mod 16 * 4096 + byte c1 mod 64 * 64 + byte c2 mod 64"
  shows "0x80 \<le> r" and "validRune r" and "EncodeRune r = [c0, c1, c2]"
proof -
  define x where "x = byte c0 - 0xE0"
  define y where "y = byte c1 - 0x80"
  define z where "z = byte c2 - 0x80"
  have c1: "0x80 \<le> byte c1" "byte c1 \<le> 0xBF"
    using assms(3,4) by (auto simp: lo3_def hi3_def split: if_splits)
  have x: "x \<le> 15" and y: "y < 64" and z: "z < 64"
    using assms(1,2,5,6) c1 by (simp_all add: x_def y_def z_def)
  have x0: "x = 0 \<longrightarrow> 32 \<le> y"
  proof
    assume "x = 0"
    with assms(1) have "byte c0 = 0xE0" unfolding x_def by linarith
    with assms(3) have "0xA0 \<le> byte c1" by (simp add: lo3_def)
    then show "32 \<le> y" unfolding y_def by linarith
  qed
  have x13: "x = 13 \<longrightarrow> y < 32"
  proof
    assume "x = 13"
    with assms(1) have "byte c0 = 0xED" unfolding x_def by linarith
    with assms(4) have "byte c1 \<le> 0x9F" by (simp add: hi3_def)
    then show "y < 32" unfolding y_def by linarith
  qed
  have r: "r = x * 4096 + y * 64 + z"
    unfolding r_def x_def y_def z_def
    using lead_three [OF assms(1,2)] continuation [OF c1] continuation [OF assms(5,6)] by simp
  have lo: "0x800 \<le> r"
  proof (cases "x = 0")
    case True
    with x0 have "32 \<le> y" by simp
    with r show ?thesis by linarith
  next
    case False
    then have "1 \<le> x" by simp
    with r show ?thesis by linarith
  qed
  then show "0x80 \<le> r" by simp
  from r x y z have hi: "r \<le> 0xFFFF" by linarith
  have ns: "\<not> (0xD800 \<le> r \<and> r \<le> 0xDFFF)"
  proof -
    consider "x \<le> 12" | "x = 13" | "14 \<le> x" by linarith
    then show ?thesis
    proof cases
      case 1
      with r y z show ?thesis by linarith
    next
      case 2
      with x13 have "y < 32" by simp
      with 2 r z show ?thesis by linarith
    next
      case 3
      with r show ?thesis by linarith
    qed
  qed
  from hi ns show "validRune r" by (simp add: validRune_def)
  have "r div 4096 = x" "r div 64 mod 64 = y" "r mod 64 = z"
    unfolding r by (rule base64_three [OF y z])+
  moreover have "0xE0 + x = byte c0" "0x80 + y = byte c1" "0x80 + z = byte c2"
    using assms(1,5) c1 by (simp_all add: x_def y_def z_def)
  ultimately have "0xE0 + r div 4096 = byte c0" "0x80 + r div 64 mod 64 = byte c1"
    "0x80 + r mod 64 = byte c2"
    by (simp_all only:)
  with Encode_three [OF lo hi ns] show "EncodeRune r = [c0, c1, c2]"
    by (simp only: char_of_byte)
qed

lemma Decode_four_valid:
  assumes "0xF0 \<le> byte c0" "byte c0 \<le> 0xF4"
    and "lo4 (byte c0) \<le> byte c1" "byte c1 \<le> hi4 (byte c0)"
    and "0x80 \<le> byte c2" "byte c2 \<le> 0xBF" and "0x80 \<le> byte c3" "byte c3 \<le> 0xBF"
  defines "r \<equiv> byte c0 mod 8 * 262144 + byte c1 mod 64 * 4096 + byte c2 mod 64 * 64
                + byte c3 mod 64"
  shows "0x80 \<le> r" and "validRune r" and "EncodeRune r = [c0, c1, c2, c3]"
proof -
  define x where "x = byte c0 - 0xF0"
  define y where "y = byte c1 - 0x80"
  define z where "z = byte c2 - 0x80"
  define u where "u = byte c3 - 0x80"
  have c1: "0x80 \<le> byte c1" "byte c1 \<le> 0xBF"
    using assms(3,4) by (auto simp: lo4_def hi4_def split: if_splits)
  have x: "x \<le> 4" and y: "y < 64" and z: "z < 64" and u: "u < 64"
    using assms(1,2,5-8) c1 by (simp_all add: x_def y_def z_def u_def)
  have x0: "x = 0 \<longrightarrow> 16 \<le> y"
  proof
    assume "x = 0"
    with assms(1) have "byte c0 = 0xF0" unfolding x_def by linarith
    with assms(3) have "0x90 \<le> byte c1" by (simp add: lo4_def)
    then show "16 \<le> y" unfolding y_def by linarith
  qed
  have x4: "x = 4 \<longrightarrow> y < 16"
  proof
    assume "x = 4"
    with assms(1) have "byte c0 = 0xF4" unfolding x_def by linarith
    with assms(4) have "byte c1 \<le> 0x8F" by (simp add: hi4_def)
    then show "y < 16" unfolding y_def by linarith
  qed
  have r: "r = x * 262144 + y * 4096 + z * 64 + u"
    unfolding r_def x_def y_def z_def u_def
    using lead_four [OF assms(1,2)] continuation [OF c1] continuation [OF assms(5,6)]
      continuation [OF assms(7,8)] by simp
  have lo: "0x10000 \<le> r"
  proof (cases "x = 0")
    case True
    with x0 have "16 \<le> y" by simp
    with r show ?thesis by linarith
  next
    case False
    then have "1 \<le> x" by simp
    with r show ?thesis by linarith
  qed
  then show "0x80 \<le> r" by simp
  have hi: "r \<le> 0x10FFFF"
  proof (cases "x = 4")
    case True
    with x4 have "y < 16" by simp
    with True r z u show ?thesis by linarith
  next
    case False
    with x have "x \<le> 3" by simp
    with r y z u show ?thesis by linarith
  qed
  from lo hi show "validRune r" by (simp add: validRune_def)
  have "r div 262144 = x" "r div 4096 mod 64 = y" "r div 64 mod 64 = z" "r mod 64 = u"
    unfolding r by (rule base64_four [OF y z u])+
  moreover have "0xF0 + x = byte c0" "0x80 + y = byte c1" "0x80 + z = byte c2"
    "0x80 + u = byte c3"
    using assms(1,5,7) c1 by (simp_all add: x_def y_def z_def u_def)
  ultimately have "0xF0 + r div 262144 = byte c0" "0x80 + r div 4096 mod 64 = byte c1"
    "0x80 + r div 64 mod 64 = byte c2" "0x80 + r mod 64 = byte c3"
    by (simp_all only:)
  with Encode_four [OF lo hi] show "EncodeRune r = [c0, c1, c2, c3]"
    by (simp only: char_of_byte)
qed

lemma Decode_cases:
  assumes "DecodeRuneInString (c0 # cs) = (r, w)"
  shows "(w = 1 \<and> byte c0 < 0x80 \<and> r = byte c0)
       \<or> (w = 1 \<and> 0x80 \<le> byte c0 \<and> r = RuneError)
       \<or> (2 \<le> w \<and> 0x80 \<le> byte c0 \<and> 0x80 \<le> r \<and> validRune r
            \<and> w \<le> length (c0 # cs) \<and> EncodeRune r = take w (c0 # cs))"
proof -
  consider (a) "byte c0 < 0x80"
    | (i) "0x80 \<le> byte c0" "byte c0 < 0xC2 \<or> 0xF4 < byte c0"
    | (two) "0xC2 \<le> byte c0" "byte c0 \<le> 0xDF"
    | (three) "0xE0 \<le> byte c0" "byte c0 \<le> 0xEF"
    | (four) "0xF0 \<le> byte c0" "byte c0 \<le> 0xF4"
    by linarith
  then show ?thesis
  proof cases
    case a
    with assms show ?thesis by (simp add: Decode_ascii)
  next
    case i
    with assms show ?thesis by (simp add: Decode_invalid)
  next
    case two
    note D = Decode_two [OF two, of cs]
    show ?thesis
    proof (cases "\<exists>c1 rest. cs = c1 # rest \<and> 0x80 \<le> byte c1 \<and> byte c1 \<le> 0xBF")
      case True
      then obtain c1 rest where cs: "cs = c1 # rest" and c1: "0x80 \<le> byte c1" "byte c1 \<le> 0xBF"
        by blast
      from D assms cs c1 have rw: "r = byte c0 mod 32 * 64 + byte c1 mod 64" "w = 2"
        by simp_all
      from Decode_two_valid [OF two c1] rw two(1) cs show ?thesis by simp
    next
      case False
      with D assms have "r = RuneError \<and> w = 1"
        by (cases cs) (auto split: if_splits)
      with two show ?thesis by simp
    qed
  next
    case three
    note D = Decode_three [OF three, of cs]
    show ?thesis
    proof (cases "\<exists>c1 c2 rest. cs = c1 # c2 # rest \<and> lo3 (byte c0) \<le> byte c1
        \<and> byte c1 \<le> hi3 (byte c0) \<and> 0x80 \<le> byte c2 \<and> byte c2 \<le> 0xBF")
      case True
      then obtain c1 c2 rest where cs: "cs = c1 # c2 # rest"
        and c1: "lo3 (byte c0) \<le> byte c1" "byte c1 \<le> hi3 (byte c0)"
        and c2: "0x80 \<le> byte c2" "byte c2 \<le> 0xBF"
        by blast
      from D assms cs c1 c2
      have rw: "r = byte c0 mod 16 * 4096 + byte c1 mod 64 * 64 + byte c2 mod 64" "w = 3"
        by simp_all
      from Decode_three_valid [OF three c1 c2] rw three(1) cs show ?thesis by simp
    next
      case False
      with D assms have "r = RuneError \<and> w = 1"
        by (cases cs; cases "tl cs") (auto split: if_splits)
      with three show ?thesis by simp
    qed
  next
    case four
    note D = Decode_four [OF four, of cs]
    show ?thesis
    proof (cases "\<exists>c1 c2 c3 rest. cs = c1 # c2 # c3 # rest \<and> lo4 (byte c0) \<le> byte c1
        \<and> byte c1 \<le> hi4 (byte c0) \<and> 0x80 \<le> byte c2 \<and> byte c2 \<le> 0xBF
        \<and> 0x80 \<le> byte c3 \<and> byte c3 \<le> 0xBF")
      case True
      then obtain c1 c2 c3 rest where cs: "cs = c1 # c2 # c3 # rest"
        and c1: "lo4 (byte c0) \<le> byte c1" "byte c1 \<le> hi4 (byte c0)"
        and c2: "0x80 \<le> byte c2" "byte c2 \<le> 0xBF"
        and c3: "0x80 \<le> byte c3" "byte c3 \<le> 0xBF"
        by blast
      from D assms cs c1 c2 c3
      have rw: "r = byte c0 mod 8 * 262144 + byte c1 mod 64 * 4096 + byte c2 mod 64 * 64
                  + byte c3 mod 64" "w = 4"
        by simp_all
      from Decode_four_valid [OF four c1 c2 c3] rw four(1) cs show ?thesis by simp
    next
      case False
      with D assms have "r = RuneError \<and> w = 1"
        by (cases cs; cases "tl cs"; cases "tl (tl cs)") (auto split: if_splits)
      with four show ?thesis by simp
    qed
  qed
qed

lemma RuneStart_lead: "0xC2 \<le> b \<Longrightarrow> b \<le> 0xF4 \<Longrightarrow> RuneStart b"
  using div_bounds [of 3 64 b 4] by (simp add: RuneStart_def)

lemma RuneStart_continuation: "0x80 \<le> b \<Longrightarrow> b \<le> 0xBF \<Longrightarrow> \<not> RuneStart b"
  using div_bounds [of 2 64 b 3] by (simp add: RuneStart_def)

lemma mod64_le: "(a::nat) mod 64 \<le> 63"
proof -
  have "a mod 64 < 64" by simp
  then show ?thesis by linarith
qed

lemma Encode_high:
  assumes "validRune r" and "0x80 \<le> r"
  shows "\<exists>c0 cont. EncodeRune r = c0 # cont \<and> 0xC2 \<le> byte c0 \<and> byte c0 \<le> 0xF4
     \<and> cont \<noteq> [] \<and> length cont \<le> 3 \<and> (\<forall>c\<in>set cont. 0x80 \<le> byte c \<and> byte c \<le> 0xBF)"
  using assms(1)
proof (cases rule: validRune_cases)
  case one
  with assms(2) show ?thesis by simp
next
  case two
  have xb: "2 \<le> r div 64" "r div 64 < 32"
    using two div_bounds [of 2 64 r 32] by simp_all
  have "byte (char_of (0xC0 + r div 64)) = 0xC0 + r div 64"
    using xb by (intro byte_char_of) simp
  moreover have "byte (char_of (0x80 + r mod 64)) = 0x80 + r mod 64"
    by (intro byte_char_of) simp
  ultimately show ?thesis
    using xb by (simp add: Encode_two [OF two] mod64_le)
next
  case three
  note d = three_digits [OF three]
  have "byte (char_of (0xE0 + r div 4096)) = 0xE0 + r div 4096"
    using d(2) by (intro byte_char_of) simp
  moreover have "byte (char_of (0x80 + r div 64 mod 64)) = 0x80 + r div 64 mod 64"
    by (intro byte_char_of) simp
  moreover have "byte (char_of (0x80 + r mod 64)) = 0x80 + r mod 64"
    by (intro byte_char_of) simp
  ultimately show ?thesis
    using d(2) by (simp add: Encode_three [OF three] mod64_le)
next
  case four
  note d = four_digits [OF four]
  have "byte (char_of (0xF0 + r div 262144)) = 0xF0 + r div 262144"
    using d(2) by (intro byte_char_of) simp
  moreover have "byte (char_of (0x80 + r div 4096 mod 64)) = 0x80 + r div 4096 mod 64"
    by (intro byte_char_of) simp
  moreover have "byte (char_of (0x80 + r div 64 mod 64)) = 0x80 + r div 64 mod 64"
    by (intro byte_char_of) simp
  moreover have "byte (char_of (0x80 + r mod 64)) = 0x80 + r mod 64"
    by (intro byte_char_of) simp
  ultimately show ?thesis
    using d(2) by (simp add: Encode_four [OF four] mod64_le)
qed

lemma DecodeLast_Encode:
  assumes "validRune r"
  shows "DecodeLastRuneInString (pre @ EncodeRune r) = (r, length (EncodeRune r))"
proof (cases "r \<le> 0x7F")
  case True
  then have "byte (char_of r) = r" by (intro byte_char_of) simp
  with True show ?thesis
    by (simp add: DecodeLastRuneInString_def Encode_one nth_append)
next
  case False
  then have "0x80 \<le> r" by simp
  from Encode_high [OF assms this] obtain c0 cont where
    enc: "EncodeRune r = c0 # cont" and c0: "0xC2 \<le> byte c0" "byte c0 \<le> 0xF4"
    and ne: "cont \<noteq> []" and len: "length cont \<le> 3"
    and cont: "\<forall>c\<in>set cont. 0x80 \<le> byte c \<and> byte c \<le> 0xBF"
    by blast
  let ?s = "pre @ c0 # cont"
  let ?n = "length ?s"
  have start: "RuneStart (byte c0)" using c0 by (rule RuneStart_lead)
  have nstart: "\<And>c. c \<in> set cont \<Longrightarrow> \<not> RuneStart (byte c)"
    using cont RuneStart_continuation by blast
  have dec: "DecodeRuneInString (c0 # cont) = (r, Suc (length cont))"
    using Decode_Encode [OF assms, of "[]"] by (simp add: enc)
  have last: "\<not> byte (?s ! (?n - 1)) < 0x80"
  proof -
    have "?s ! (?n - 1) = last cont" using ne by (simp add: nth_append last_conv_nth)
    moreover have "last cont \<in> set cont" using ne by simp
    ultimately show ?thesis using cont by auto
  qed
  consider (l1) a where "cont = [a]" | (l2) a b where "cont = [a, b]"
    | (l3) a b c where "cont = [a, b, c]"
    using ne len by (cases cont; cases "tl cont"; cases "tl (tl cont)") auto
  then have "DecodeLastRuneInString ?s = (r, Suc (length cont))"
  proof cases
    case l1
    with start dec last show ?thesis
      by (simp add: DecodeLastRuneInString_def Let_def nth_append)
  next
    case l2
    with start nstart [of a] dec last show ?thesis
      by (simp add: DecodeLastRuneInString_def Let_def nth_append)
  next
    case l3
    with start nstart [of a] nstart [of b] dec last show ?thesis
      by (simp add: DecodeLastRuneInString_def Let_def nth_append)
  qed
  then show ?thesis by (simp add: enc)
qed

lemma validRune_RuneError: "validRune RuneError"
  by (simp add: validRune_def RuneError_def)

lemma Decode_width:
  assumes "DecodeRuneInString (c # cs) = (r, w)"
  shows "1 \<le> w" and "w \<le> length (c # cs)" and "drop (w - 1) cs = drop w (c # cs)"
    and "validRune r"
proof -
  from Decode_cases [OF assms] show w: "1 \<le> w" by auto
  from Decode_cases [OF assms] show "w \<le> length (c # cs)" by auto
  from w show "drop (w - 1) cs = drop w (c # cs)" by (cases w) simp_all
  from Decode_cases [OF assms] show "validRune r"
    by (auto simp: validRune_RuneError) (simp add: validRune_def)
qed

lemma Encode_bytes_high:
  assumes "validRune r" and "0x80 \<le> r" and "c \<in> set (EncodeRune r)"
  shows "0x80 \<le> byte c"
  using Encode_high [OF assms(1,2)] assms(3) by auto

lemma IsDigit_ascii: "r < 0x80 \<Longrightarrow> IsDigit L r = (0x30 \<le> r \<and> r \<le> 0x39)"
  by (simp add: IsDigit_def)

lemma IsDigit_RuneError: "IsDigit L RuneError = Digit_table L 0xFFFD"
  by (simp add: IsDigit_def RuneError_def)

text \<open>The bytes of one digit, as the decoder meets it at the start of a string.\<close>

lemma digit_rune:
  assumes "DecodeRuneInString (c # cs) = (r, w)" and "IsDigit L r"
    and "\<not> Digit_table L 0xFFFD"
  shows "EncodeRune r = take w (c # cs)"
  using Decode_cases [OF assms(1)]
proof (elim disjE conjE)
  assume "w = 1" "byte c < 0x80" "r = byte c"
  then show ?thesis by (simp add: Encode_one char_of_byte)
next
  assume "r = RuneError"
  with assms(2,3) show ?thesis by (simp add: IsDigit_RuneError)
next
  assume "EncodeRune r = take w (c # cs)"
  then show ?thesis .
qed

lemma digit_bytes:
  assumes "DecodeRuneInString (c # cs) = (r, w)" and "IsDigit L r"
    and "b \<in> set (take w (c # cs))"
  shows "isDecimal b \<or> 0x80 \<le> byte b"
  using Decode_cases [OF assms(1)]
proof (elim disjE conjE)
  assume "w = 1" "byte c < 0x80" "r = byte c"
  with assms(2,3) show ?thesis by (simp add: IsDigit_ascii isDecimal_def)
next
  assume "w = 1" "0x80 \<le> byte c"
  with assms(3) show ?thesis by simp
next
  assume "0x80 \<le> r" "validRune r" "EncodeRune r = take w (c # cs)"
  with assms(3) Encode_bytes_high show ?thesis by metis
qed

lemma allDigitsLoop_bytes:
  "allDigitsLoop L s \<Longrightarrow> b \<in> set s \<Longrightarrow> isDecimal b \<or> 0x80 \<le> byte b"
proof (induction L s rule: allDigitsLoop.induct)
  case (1 L)
  then show ?case by simp
next
  case (2 L c cs)
  obtain r w where d: "DecodeRuneInString (c # cs) = (r, w)"
    by (cases "DecodeRuneInString (c # cs)")
  from "2.prems"(1) d have dig: "IsDigit L r" and rest: "allDigitsLoop L (drop (w - 1) cs)"
    by (auto split: if_splits)
  have "c # cs = take w (c # cs) @ drop w (c # cs)" by simp
  then have "b \<in> set (take w (c # cs)) \<or> b \<in> set (drop w (c # cs))"
    using "2.prems"(2) by (metis Un_iff set_append)
  then show ?case
  proof
    assume "b \<in> set (take w (c # cs))"
    with d dig show ?thesis by (rule digit_bytes)
  next
    assume "b \<in> set (drop w (c # cs))"
    then have "b \<in> set (drop (w - 1) cs)" using Decode_width(3) [OF d] by simp
    with "2.IH" [OF d [symmetric] refl _ rest] dig show ?thesis by simp
  qed
qed

lemma allDigitsLoop_runes:
  "allDigitsLoop L s = list_all (\<lambda>(r, b). IsDigit L r) (runes s)"
proof (induction s rule: runes.induct)
  case 1
  show ?case by simp
next
  case (2 c cs)
  obtain r w where d: "DecodeRuneInString (c # cs) = (r, w)"
    by (cases "DecodeRuneInString (c # cs)")
  from "2.IH" [OF d [symmetric] refl] show ?case by (simp add: d)
qed

lemma isAllDigits_solely: "isAllDigits L s = solelyDigits L s"
  by (simp add: isAllDigits_def solelyDigits_def allDigitsLoop_runes)

lemma digitsLoop_run:
  assumes "\<not> Digit_table L 0xFFFD"
  shows "digitsLoop L s = digitRun L s"
proof (induction s rule: runes.induct)
  case 1
  show ?case by (simp add: digitRun_def)
next
  case (2 c cs)
  obtain r w where d: "DecodeRuneInString (c # cs) = (r, w)"
    by (cases "DecodeRuneInString (c # cs)")
  show ?case
  proof (cases "IsDigit L r")
    case True
    from digit_rune [OF d True assms] "2.IH" [OF d [symmetric] refl] d True
    show ?thesis by (simp add: digitRun_def)
  next
    case False
    with d show ?thesis by (simp add: digitRun_def)
  qed
qed

lemma allDigitsLoop_Encode:
  assumes "validRune r"
  shows "allDigitsLoop L (EncodeRune r @ t) = (IsDigit L r \<and> allDigitsLoop L t)"
proof -
  obtain c cs where e: "EncodeRune r = c # cs"
    using EncodeRune_not_Nil [of r] by (cases "EncodeRune r") auto
  have d: "DecodeRuneInString (c # cs @ t) = (r, Suc (length cs))"
    using Decode_Encode [OF assms, of t] by (simp add: e)
  show ?thesis by (simp add: e d)
qed

lemma allDigitsLoop_digitsLoop: "allDigitsLoop L (digitsLoop L s)"
proof (induction L s rule: digitsLoop.induct)
  case (1 L)
  show ?case by simp
next
  case (2 L c cs)
  obtain r w where d: "DecodeRuneInString (c # cs) = (r, w)"
    by (cases "DecodeRuneInString (c # cs)")
  show ?case
  proof (cases "IsDigit L r")
    case True
    from "2.IH" [OF d [symmetric] refl True] Decode_width(4) [OF d] True d
    show ?thesis by (simp add: allDigitsLoop_Encode)
  next
    case False
    with d show ?thesis by simp
  qed
qed

lemma length_digitsLoop:
  assumes "\<not> Digit_table L 0xFFFD"
  shows "length (digitsLoop L s) \<le> length s"
  using assms
proof (induction L s rule: digitsLoop.induct)
  case (1 L)
  show ?case by simp
next
  case (2 L c cs)
  obtain r w where d: "DecodeRuneInString (c # cs) = (r, w)"
    by (cases "DecodeRuneInString (c # cs)")
  show ?case
  proof (cases "IsDigit L r")
    case True
    have "length (digitsLoop L (drop (w - 1) cs)) \<le> length (drop (w - 1) cs)"
      using "2.IH" [OF d [symmetric] refl True "2.prems"] .
    moreover have "length (EncodeRune r) = w"
    proof -
      have "length (EncodeRune r) = length (take w (c # cs))"
        by (simp only: digit_rune [OF d True "2.prems"])
      also have "\<dots> = w" using Decode_width(2) [OF d] by simp
      finally show ?thesis .
    qed
    moreover have "length (drop (w - 1) cs) = length (c # cs) - w"
      using Decode_width(3) [OF d] by simp
    ultimately show ?thesis
      using d True Decode_width(2) [OF d] by simp
  next
    case False
    with d show ?thesis by simp
  qed
qed

section \<open>The rules of identifier extraction\<close>

lemma Index_first:
  "idx \<le> length s \<Longrightarrow> HasPrefix (drop idx s) t \<Longrightarrow> (\<forall>j<idx. \<not> HasPrefix (drop j s) t)
   \<Longrightarrow> Index s t = Some idx"
proof (induction s arbitrary: idx)
  case Nil
  then show ?case by (simp add: HasPrefix_def)
next
  case (Cons c cs)
  show ?case
  proof (cases idx)
    case 0
    with Cons.prems show ?thesis by simp
  next
    case (Suc k)
    with Cons.prems have n: "\<not> HasPrefix (c # cs) t" by force
    have "Index cs t = Some k"
    proof (rule Cons.IH)
      from Cons.prems Suc show "k \<le> length cs" by simp
      from Cons.prems Suc show "HasPrefix (drop k cs) t" by simp
      show "\<forall>j<k. \<not> HasPrefix (drop j cs) t"
      proof (intro allI impI)
        fix j assume "j < k"
        then have "Suc j < idx" using Suc by simp
        with Cons.prems(3) have "\<not> HasPrefix (drop (Suc j) (c # cs)) t" by blast
        then show "\<not> HasPrefix (drop j cs) t" by simp
      qed
    qed
    with n Suc show ?thesis by simp
  qed
qed

lemma marker_not_digits:
  assumes "HasPrefix (drop idx line) target"
  shows "\<not> isAllDigits L line"
proof
  assume a: "isAllDigits L line"
  from assms obtain rest where "drop idx line = CHR ''u'' # rest"
    by (cases "drop idx line") (auto simp: HasPrefix_def target_def)
  then have "CHR ''u'' \<in> set (drop idx line)" by simp
  then have "CHR ''u'' \<in> set line" by (rule in_set_dropD)
  moreover from a have "allDigitsLoop L line"
    by (simp add: isAllDigits_def split: if_splits)
  ultimately have "isDecimal CHR ''u'' \<or> 0x80 \<le> byte CHR ''u''"
    by (intro allDigitsLoop_bytes)
  then show False by (simp add: isDecimal_def byte_def)
qed

text \<open>
  C10: when the marker occurs in a line, its first occurrence being at \<open>idx\<close>, and what
  follows this occurrence is the end of the line or a rune that is no decimal digit, the
  line yields no identifier, whatever follows a later occurrence of the marker.
\<close>

theorem first_marker_only:
  assumes "idx \<le> length line" and "HasPrefix (drop idx line) target"
    and "\<forall>j<idx. \<not> HasPrefix (drop j line) target"
    and "drop (idx + length target) line = []
         \<or> \<not> IsDigit L (fst (DecodeRuneInString (drop (idx + length target) line)))"
  shows "extractProductCode L line = []"
proof -
  have i: "Index line target = Some idx"
    using assms(1-3) by (rule Index_first)
  have n: "\<not> isAllDigits L line"
    using assms(2) by (rule marker_not_digits)
  have "digitsLoop L (drop (idx + length target) line) = []"
    using assms(4) by (cases "drop (idx + length target) line") (auto split: prod.splits)
  with i n show ?thesis by (simp add: extractProductCode_def)
qed

theorem first_marker_only_witness:
  "extractProductCode sampleLib ''urunno=xurunno=123'' = []
   \<and> scanIDs sampleLib ''urunno=xurunno=123'' None = ([], None)"
proof -
  have a: "0 \<le> length ''urunno=xurunno=123''" by simp
  have b: "HasPrefix (drop 0 ''urunno=xurunno=123'') target" by code_simp
  have c: "\<forall>j<0::nat. \<not> HasPrefix (drop j ''urunno=xurunno=123'') target" by simp
  have d: "drop (0 + length target) ''urunno=xurunno=123'' = []
      \<or> \<not> IsDigit sampleLib
           (fst (DecodeRuneInString (drop (0 + length target) ''urunno=xurunno=123'')))"
    by code_simp
  have e: "scanIDs sampleLib ''urunno=xurunno=123'' None = ([], None)" by code_simp
  from first_marker_only [OF a b c d] e show ?thesis by simp
qed

lemma extract_rule:
  assumes "\<not> Digit_table L 0xFFFD" and "line \<noteq> []" and "\<not> HasPrefix line ''#''"
  shows "lineRule L line =
     (if extractProductCode L line \<noteq> [] then Some (extractProductCode L line) else None)"
proof (cases "solelyDigits L line")
  case True
  with assms show ?thesis
    by (simp add: lineRule_def extractProductCode_def isAllDigits_solely)
next
  case False
  with assms show ?thesis
    by (simp add: lineRule_def extractProductCode_def isAllDigits_solely target_def
        digitsLoop_run Let_def split: option.splits)
qed

lemma scanLoop_rules:
  assumes "\<not> Digit_table L 0xFFFD"
  shows "\<forall>raw\<in>set raws. int (length raw) < MaxScanTokenSize \<Longrightarrow>
     scanLoop L raws = (List.map_filter (\<lambda>raw. lineRule L (TrimSpace L (dropCR raw))) raws, None)"
proof (induction raws)
  case Nil
  show ?case by (simp add: List.map_filter_simps)
next
  case (Cons raw raws)
  let ?line = "TrimSpace L (dropCR raw)"
  from Cons have IH: "scanLoop L raws =
      (List.map_filter (\<lambda>raw. lineRule L (TrimSpace L (dropCR raw))) raws, None)"
    and short: "\<not> MaxScanTokenSize \<le> int (length raw)" by simp_all
  show ?case
  proof (cases "?line = [] \<or> HasPrefix ?line ''#''")
    case True
    then have "lineRule L ?line = None" by (auto simp: lineRule_def)
    with True IH short show ?thesis by (simp add: List.map_filter_simps Let_def)
  next
    case False
    with extract_rule [OF assms, of ?line] IH short show ?thesis
      by (simp add: List.map_filter_simps Let_def)
  qed
qed

text \<open>
  C3: on an input whose lines fit the scanner's buffer, \<open>scanIDs\<close> returns, in order,
  what the rules give for each trimmed line: nothing for a blank line or a line starting
  with \<open>#\<close>; the whole line when it is made solely of decimal digits; otherwise the
  maximal run of decimal digits right behind the marker \<open>urunno=\<close>, when the line has
  the marker and the run is not empty; nothing otherwise. The five inputs of the claim
  give the five results it names. (The replacement character is not in the table of
  digits: a byte that decodes to nothing is no digit.)
\<close>

theorem scanIDs_rules:
  assumes "\<not> Digit_table L 0xFFFD"
  shows "((\<forall>raw\<in>set (scanLines [] input). int (length raw) < MaxScanTokenSize) \<longrightarrow>
       scanIDs L input None =
         (List.map_filter (\<lambda>raw. lineRule L (TrimSpace L (dropCR raw))) (scanLines [] input), None))
     \<and> scanIDs L ''123456'' None = ([''123456''], None)
     \<and> scanIDs L ''https://site/x?urunno=98765&y=1'' None = ([''98765''], None)
     \<and> scanIDs L ''# comment'' None = ([], None)
     \<and> scanIDs L [] None = ([], None)
     \<and> scanIDs L ''urunno=abc'' None = ([], None)"
proof -
  have "scanIDs L ''123456'' None = ([''123456''], None)" by code_simp
  moreover have "scanIDs L ''https://site/x?urunno=98765&y=1'' None = ([''98765''], None)"
    by code_simp
  moreover have "scanIDs L ''# comment'' None = ([], None)" by code_simp
  moreover have "scanIDs L [] None = ([], None)" by code_simp
  moreover have "scanIDs L ''urunno=abc'' None = ([], None)" by code_simp
  moreover have "(\<forall>raw\<in>set (scanLines [] input). int (length raw) < MaxScanTokenSize) \<longrightarrow>
       scanIDs L input None =
         (List.map_filter (\<lambda>raw. lineRule L (TrimSpace L (dropCR raw))) (scanLines [] input), None)"
    using scanLoop_rules [OF assms, of "scanLines [] input"] by (simp add: scanIDs_def)
  ultimately show ?thesis by blast
qed

theorem scanIDs_rules_witness:
  "scanIDs sampleLib (''  12 '' @ [CHR 0x0D, CHR 0x0A] @ ''# 34'' @ [CHR 0x0A]
      @ ''x?urunno=56'' @ [CHR 0xD9, CHR 0xA3] @ ''z'') None
    = ([''12'', ''56'' @ [CHR 0xD9, CHR 0xA3]], None)"
proof -
  let ?input = "''  12 '' @ [CHR 0x0D, CHR 0x0A] @ ''# 34'' @ [CHR 0x0A]
      @ ''x?urunno=56'' @ [CHR 0xD9, CHR 0xA3] @ ''z''"
  have t: "\<not> Digit_table sampleLib 0xFFFD" by (simp add: sampleLib_def)
  have s: "\<forall>raw\<in>set (scanLines [] ?input). int (length raw) < MaxScanTokenSize"
    by code_simp
  have m: "List.map_filter (\<lambda>raw. lineRule sampleLib (TrimSpace sampleLib (dropCR raw)))
      (scanLines [] ?input) = [''12'', ''56'' @ [CHR 0xD9, CHR 0xA3]]"
    by code_simp
  from scanIDs_rules [OF t, of ?input] s show ?thesis unfolding m by blast
qed

lemma scanLines_whole:
  "CHR 0x0A \<notin> set s \<Longrightarrow> scanLines cur s = (if cur @ s = [] then [] else [cur @ s])"
  by (induction s arbitrary: cur) auto

lemma allDigitsLoop_ones: "allDigitsLoop L (replicate n CHR ''1'')"
  by (induction n) (simp_all add: Decode_ascii byte_def IsDigit_def)

text \<open>
  A line of 65536 digits is made solely of digits but does not fit the scanner's buffer:
  the scan ends with \<open>ErrTooLong\<close> and no identifier, where the first rule would
  give the line.
\<close>

theorem scanIDs_rules_counterexample:
  "isAllDigits sampleLib (replicate 65536 CHR ''1'')
   \<and> scanIDs sampleLib (replicate 65536 CHR ''1'') None = ([], Some ErrTooLong)"
proof -
  have "scanLines [] (replicate 65536 CHR ''1'') = [replicate 65536 CHR ''1'']"
    by (subst scanLines_whole) simp_all
  then have "scanIDs sampleLib (replicate 65536 CHR ''1'') None = ([], Some ErrTooLong)"
    by (simp add: scanIDs_def MaxScanTokenSize_def)
  moreover have "isAllDigits sampleLib (replicate 65536 CHR ''1'')"
    by (simp add: isAllDigits_def allDigitsLoop_ones)
  ultimately show ?thesis by simp
qed

section \<open>Extraction is idempotent\<close>

lemma IsDigit_not_space: "tablesOK L \<Longrightarrow> IsDigit L r \<Longrightarrow> \<not> IsSpace L r"
  by (auto simp: tablesOK_def IsDigit_def IsSpace_def split: if_splits)

lemma digit_byte_plain:
  assumes "isDecimal c \<or> 0x80 \<le> byte c"
  shows "\<not> (byte c < 0x80 \<and> asciiSpace c)" and "c \<noteq> CHR 0x0A" and "c \<noteq> CHR 0x0D"
    and "c \<noteq> CHR ''#''"
  using assms by (auto simp: isDecimal_def asciiSpace_def byte_def)

lemma allDigits_decomp:
  assumes "\<not> Digit_table L 0xFFFD"
  shows "allDigitsLoop L s \<Longrightarrow>
     \<exists>rs. s = concat (map EncodeRune rs) \<and> (\<forall>r\<in>set rs. validRune r \<and> IsDigit L r)"
  using assms
proof (induction L s rule: allDigitsLoop.induct)
  case (1 L)
  have "[] = concat (map EncodeRune []) \<and> (\<forall>r\<in>set []. validRune r \<and> IsDigit L r)" by simp
  then show ?case by blast
next
  case (2 L c cs)
  obtain r w where d: "DecodeRuneInString (c # cs) = (r, w)"
    by (cases "DecodeRuneInString (c # cs)")
  from "2.prems"(1) d have dig: "IsDigit L r" and rest: "allDigitsLoop L (drop (w - 1) cs)"
    by (auto split: if_splits)
  from "2.IH" [OF d [symmetric] refl _ rest "2.prems"(2)] dig
  obtain rs where rs: "drop (w - 1) cs = concat (map EncodeRune rs)"
    and all: "\<forall>r\<in>set rs. validRune r \<and> IsDigit L r"
    by auto
  have "c # cs = take w (c # cs) @ drop w (c # cs)" by simp
  also have "\<dots> = EncodeRune r @ concat (map EncodeRune rs)"
    using digit_rune [OF d dig "2.prems"(2)] Decode_width(3) [OF d] rs by simp
  finally have "c # cs = concat (map EncodeRune (r # rs))" by simp
  moreover have "\<forall>q\<in>set (r # rs). validRune q \<and> IsDigit L q"
    using all dig Decode_width(4) [OF d] by simp
  ultimately show ?case by blast
qed

lemma TrimLeftSpace_Encode:
  assumes "validRune r" and "\<not> IsSpace L r"
  shows "TrimLeftSpace L (EncodeRune r @ t) = EncodeRune r @ t"
proof -
  obtain c cs where e: "EncodeRune r = c # cs"
    using EncodeRune_not_Nil [of r] by (cases "EncodeRune r") auto
  have d: "DecodeRuneInString (c # cs @ t) = (r, Suc (length cs))"
    using Decode_Encode [OF assms(1), of t] by (simp add: e)
  show ?thesis using assms(2) by (simp add: e d)
qed

lemma TrimRightSpace_Encode:
  assumes "validRune r" and "\<not> IsSpace L r"
  shows "TrimRightSpace L (pre @ EncodeRune r) = pre @ EncodeRune r"
proof -
  let ?s = "pre @ EncodeRune r"
  have ne: "?s \<noteq> []" using EncodeRune_not_Nil [of r] by simp
  have i: "lastIndexNotSpace L ?s = Some (length pre)"
    using ne assms(2) DecodeLast_Encode [OF assms(1), of pre]
    by (subst lastIndexNotSpace.simps) simp
  have at: "?s ! length pre = hd (EncodeRune r)"
    using EncodeRune_not_Nil [of r] by (simp add: nth_append hd_conv_nth)
  have dr: "drop (length pre) ?s = EncodeRune r" by simp
  show ?thesis
  proof (cases "r \<le> 0x7F")
    case True
    then have "byte (char_of r) = r" by (intro byte_char_of) simp
    with True i at show ?thesis
      by (simp add: TrimRightSpace_def Encode_one)
  next
    case False
    then have "0x80 \<le> r" by simp
    from Encode_high [OF assms(1) this] obtain c0 cont where
      enc: "EncodeRune r = c0 # cont" and c0: "0xC2 \<le> byte c0"
      by blast
    have "DecodeRuneInString (EncodeRune r) = (r, length (EncodeRune r))"
      using Decode_Encode [OF assms(1), of "[]"] by simp
    with i at dr enc c0 show ?thesis
      by (simp add: TrimRightSpace_def)
  qed
qed

lemma concat_Encode_last:
  assumes "rs \<noteq> []"
  shows "concat (map EncodeRune rs) = concat (map EncodeRune (butlast rs)) @ EncodeRune (last rs)"
proof -
  have "rs = butlast rs @ [last rs]" using assms by simp
  then have "concat (map EncodeRune rs) = concat (map EncodeRune (butlast rs @ [last rs]))"
    by simp
  then show ?thesis by simp
qed

lemma TrimSpace_digits:
  assumes "tablesOK L" and "isAllDigits L s"
  shows "TrimSpace L s = s"
proof -
  from assms(2) have ne: "s \<noteq> []" and loop: "allDigitsLoop L s"
    by (auto simp: isAllDigits_def split: if_splits)
  from assms(1) have t: "\<not> Digit_table L 0xFFFD" by (simp add: tablesOK_def)
  from allDigits_decomp [OF t loop] obtain rs where
    s: "s = concat (map EncodeRune rs)" and all: "\<forall>r\<in>set rs. validRune r \<and> IsDigit L r"
    by blast
  from ne s have rne: "rs \<noteq> []" by auto
  have plain: "\<And>b. b \<in> set s \<Longrightarrow> \<not> (byte b < 0x80 \<and> asciiSpace b)"
    using allDigitsLoop_bytes [OF loop] digit_byte_plain(1) by blast
  have right: "TrimRightSpace L s = s"
  proof -
    have "validRune (last rs)" "\<not> IsSpace L (last rs)"
      using all rne IsDigit_not_space [OF assms(1)] by auto
    from TrimRightSpace_Encode [OF this, of "concat (map EncodeRune (butlast rs))"]
    show ?thesis using concat_Encode_last [OF rne] s by simp
  qed
  have left: "TrimLeftSpace L s = s"
  proof -
    obtain r0 rs0 where r0: "rs = r0 # rs0" using rne by (cases rs) auto
    have "validRune r0" "\<not> IsSpace L r0"
      using all r0 IsDigit_not_space [OF assms(1)] by auto
    from TrimLeftSpace_Encode [OF this, of "concat (map EncodeRune rs0)"]
    show ?thesis using s r0 by simp
  qed
  obtain c cs where c: "s = c # cs" using ne by (cases s) auto
  show ?thesis
  proof (cases "0x80 \<le> byte c")
    case True
    with c left right show ?thesis by (simp add: TrimFuncSpace_def)
  next
    case False
    with plain [of c] c have nsp: "\<not> asciiSpace c" by simp
    obtain d ds where d: "rev s = d # ds" using ne by (cases "rev s") auto
    then have dm: "d \<in> set s" by (metis list.set_intros(1) set_rev)
    have "TrimSpace_stop L (d # ds) = d # ds"
    proof (cases "0x80 \<le> byte d")
      case True
      have "rev (d # ds) = s" using d by (metis rev_rev_ident)
      with True right d show ?thesis by simp
    next
      case False
      with plain [OF dm] show ?thesis by simp
    qed
    with d have st: "TrimSpace_stop L (rev s) = rev s" by simp
    have "TrimSpace L (c # cs) = rev (TrimSpace_stop L (rev (c # cs)))"
      using False nsp by (simp del: rev.simps)
    then have "TrimSpace L s = rev (TrimSpace_stop L (rev s))" by (simp only: c)
    with st show ?thesis by simp
  qed
qed

lemma dropCR_digits:
  assumes "allDigitsLoop L s"
  shows "dropCR s = s"
proof (cases "s = []")
  case True
  then show ?thesis by (simp add: dropCR_def)
next
  case False
  then have "last s \<in> set s" by simp
  with allDigitsLoop_bytes [OF assms] digit_byte_plain(3) have "last s \<noteq> CHR 0x0D" by blast
  then show ?thesis by (simp add: dropCR_def)
qed

lemma length_TrimLeftSpace: "length (TrimLeftSpace L s) \<le> length s"
proof (induction L s rule: TrimLeftSpace.induct)
  case (1 L)
  show ?case by simp
next
  case (2 L c cs)
  obtain r w where d: "DecodeRuneInString (c # cs) = (r, w)"
    by (cases "DecodeRuneInString (c # cs)")
  show ?case
  proof (cases "IsSpace L r")
    case True
    from "2.IH" [OF d [symmetric] refl True]
    have "length (TrimLeftSpace L (drop (w - 1) cs)) \<le> length cs"
      by (rule order_trans) simp
    with d True show ?thesis by simp
  next
    case False
    with d show ?thesis by simp
  qed
qed

lemma length_TrimRightSpace: "length (TrimRightSpace L s) \<le> length s"
  by (simp add: TrimRightSpace_def split: option.splits)

lemma length_TrimSpace_stop: "length (TrimSpace_stop L s) \<le> length s"
proof (induction L s rule: TrimSpace_stop.induct)
  case (1 L)
  show ?case by simp
next
  case (2 L c cs)
  have "length (TrimRightSpace L (rev (c # cs))) \<le> length (rev (c # cs))"
    by (rule length_TrimRightSpace)
  with "2.IH" show ?case by (auto simp del: rev.simps)
qed

lemma length_TrimSpace: "length (TrimSpace L s) \<le> length s"
proof (induction L s rule: TrimSpace.induct)
  case (1 L)
  show ?case by simp
next
  case (2 L c cs)
  have a: "length (TrimFuncSpace L (c # cs)) \<le> length (c # cs)"
    unfolding TrimFuncSpace_def
    using length_TrimRightSpace [of L "TrimLeftSpace L (c # cs)"]
      length_TrimLeftSpace [of L "c # cs"] by (rule order_trans)
  have b: "length (rev (TrimSpace_stop L (rev (c # cs)))) \<le> length (c # cs)"
    using length_TrimSpace_stop [of L "rev (c # cs)"] by simp
  from "2.IH" a b show ?case by (auto simp del: rev.simps TrimSpace_stop.simps)
qed

lemma length_dropCR: "length (dropCR s) \<le> length s"
  by (simp add: dropCR_def)

lemma extract_digits:
  assumes "\<not> Digit_table L 0xFFFD" and "extractProductCode L line \<noteq> []"
  shows "isAllDigits L (extractProductCode L line)"
    and "length (extractProductCode L line) \<le> length line"
proof -
  show "isAllDigits L (extractProductCode L line)"
  proof (cases "isAllDigits L line")
    case True
    then show ?thesis by (simp add: extractProductCode_def)
  next
    case False
    with assms(2) obtain idx where i: "Index line target = Some idx"
      by (auto simp: extractProductCode_def split: option.splits)
    with False assms(2) have
      "extractProductCode L line = digitsLoop L (drop (idx + length target) line)"
      by (auto simp: extractProductCode_def Let_def split: if_splits)
    with assms(2) show ?thesis
      by (simp add: isAllDigits_def allDigitsLoop_digitsLoop)
  qed
  show "length (extractProductCode L line) \<le> length line"
  proof (cases "isAllDigits L line")
    case True
    then show ?thesis by (simp add: extractProductCode_def)
  next
    case False
    have "length (digitsLoop L (drop n line)) \<le> length line" for n
      using length_digitsLoop [OF assms(1), of "drop n line"] by simp
    with False show ?thesis
      by (auto simp: extractProductCode_def Let_def split: option.splits)
  qed
qed

lemma scanLoop_ids:
  assumes "tablesOK L"
  shows "s \<in> set (fst (scanLoop L raws)) \<Longrightarrow>
     isAllDigits L s \<and> int (length s) < MaxScanTokenSize"
proof (induction raws)
  case Nil
  then show ?case by simp
next
  case (Cons raw raws)
  from assms have t: "\<not> Digit_table L 0xFFFD" by (simp add: tablesOK_def)
  let ?line = "TrimSpace L (dropCR raw)"
  let ?e = "extractProductCode L ?line"
  show ?case
  proof (cases "MaxScanTokenSize \<le> int (length raw)")
    case True
    with Cons.prems show ?thesis by simp
  next
    case False
    show ?thesis
    proof (cases "s \<in> set (fst (scanLoop L raws))")
      case True
      then show ?thesis by (rule Cons.IH)
    next
      case old: False
      with Cons.prems False have e: "?e \<noteq> []" and s: "s = ?e"
        by (auto simp: Let_def split: if_splits)
      have "length ?e \<le> length ?line" using extract_digits(2) [OF t e] .
      also have "\<dots> \<le> length (dropCR raw)" by (rule length_TrimSpace)
      also have "\<dots> \<le> length raw" by (rule length_dropCR)
      finally have "int (length ?e) < MaxScanTokenSize" using False by simp
      with extract_digits(1) [OF t e] s show ?thesis by simp
    qed
  qed
qed

lemma scanLines_line:
  "CHR 0x0A \<notin> set s \<Longrightarrow> scanLines cur (s @ CHR 0x0A # rest) = (cur @ s) # scanLines [] rest"
  by (induction s arbitrary: cur) auto

lemma digits_facts:
  assumes "isAllDigits L s"
  shows "s \<noteq> []" and "allDigitsLoop L s" and "CHR 0x0A \<notin> set s" and "\<not> HasPrefix s ''#''"
proof -
  from assms show ne: "s \<noteq> []" and loop: "allDigitsLoop L s"
    by (auto simp: isAllDigits_def split: if_splits)
  from allDigitsLoop_bytes [OF loop] digit_byte_plain(2) show "CHR 0x0A \<notin> set s" by blast
  from ne have "hd s \<in> set s" by simp
  with allDigitsLoop_bytes [OF loop] digit_byte_plain(4) have "hd s \<noteq> CHR ''#''" by blast
  with ne show "\<not> HasPrefix s ''#''" by (cases s) (auto simp: HasPrefix_def)
qed

lemma scanLoop_digit_line:
  assumes "tablesOK L" and "isAllDigits L s" and "int (length s) < MaxScanTokenSize"
  shows "scanLoop L (s # raws) = (s # fst (scanLoop L raws), snd (scanLoop L raws))"
proof -
  note f = digits_facts [OF assms(2)]
  have line: "TrimSpace L (dropCR s) = s"
    using dropCR_digits [OF f(2)] TrimSpace_digits [OF assms(1,2)] by simp
  have e: "extractProductCode L s = s"
    using assms(2) by (simp add: extractProductCode_def)
  from assms(3) have "\<not> MaxScanTokenSize \<le> int (length s)" by simp
  with line e f(1,4) show ?thesis by (simp add: Let_def)
qed

lemma rescan_lines:
  assumes "tablesOK L"
  shows "\<forall>s\<in>set ids. isAllDigits L s \<and> int (length s) < MaxScanTokenSize \<Longrightarrow>
     scanLoop L (scanLines [] (concat (map (\<lambda>i. i @ [CHR 0x0A]) ids))) = (ids, None)"
proof (induction ids)
  case Nil
  show ?case by simp
next
  case (Cons s ids)
  then have d: "isAllDigits L s" and l: "int (length s) < MaxScanTokenSize"
    and IH: "scanLoop L (scanLines [] (concat (map (\<lambda>i. i @ [CHR 0x0A]) ids))) = (ids, None)"
    by simp_all
  have "scanLines [] (concat (map (\<lambda>i. i @ [CHR 0x0A]) (s # ids)))
      = s # scanLines [] (concat (map (\<lambda>i. i @ [CHR 0x0A]) ids))"
    using scanLines_line [OF digits_facts(3) [OF d], of "[]"] by simp
  with scanLoop_digit_line [OF assms d l] IH show ?case by (simp del: scanLoop.simps)
qed

lemma rescan_joined:
  assumes "tablesOK L"
  shows "\<forall>s\<in>set ids. isAllDigits L s \<and> int (length s) < MaxScanTokenSize \<Longrightarrow>
     scanLoop L (scanLines [] (joinLines ids)) = (ids, None)"
proof (induction ids rule: joinLines.induct)
  case 1
  show ?case by simp
next
  case (2 s)
  then have d: "isAllDigits L s" and l: "int (length s) < MaxScanTokenSize" by simp_all
  have "scanLines [] (joinLines [s]) = [s]"
    using scanLines_whole [OF digits_facts(3) [OF d], of "[]"] digits_facts(1) [OF d] by simp
  with scanLoop_digit_line [OF assms d l, of "[]"] show ?case by (simp del: scanLoop.simps) simp
next
  case (3 s t ts)
  then have d: "isAllDigits L s" and l: "int (length s) < MaxScanTokenSize"
    and IH: "scanLoop L (scanLines [] (joinLines (t # ts))) = (t # ts, None)"
    by simp_all
  have "scanLines [] (joinLines (s # t # ts)) = s # scanLines [] (joinLines (t # ts))"
    using scanLines_line [OF digits_facts(3) [OF d], of "[]"] by simp
  with scanLoop_digit_line [OF assms d l] IH show ?case by (simp del: scanLoop.simps)
qed

text \<open>
  C6: whatever the input, every identifier \<open>scanIDs\<close> finds is a line made solely of
  decimal digits (and not empty), and feeding the list back, one identifier per line
  with or without a newline after the last one, yields the same list and no error. (The
  tables of package \<open>unicode\<close> are as in every version of Unicode: the replacement
  character is no digit and no digit is white space.)
\<close>

theorem extraction_idempotent:
  assumes "tablesOK L" and "scanIDs L input rerr = (ids, err)"
  shows "(\<forall>s\<in>set ids. solelyDigits L s)
     \<and> scanIDs L (joinLines ids) None = (ids, None)
     \<and> scanIDs L (concat (map (\<lambda>i. i @ [CHR 0x0A]) ids)) None = (ids, None)"
proof -
  from assms(2) have "ids = fst (scanLoop L (scanLines [] input))"
    by (auto simp: scanIDs_def split: prod.splits option.splits)
  then have all: "\<forall>s\<in>set ids. isAllDigits L s \<and> int (length s) < MaxScanTokenSize"
    using scanLoop_ids [OF assms(1)] by blast
  then have "\<forall>s\<in>set ids. solelyDigits L s" by (simp add: isAllDigits_solely)
  moreover have "scanIDs L (joinLines ids) None = (ids, None)"
    using rescan_joined [OF assms(1) all] by (simp add: scanIDs_def)
  moreover have "scanIDs L (concat (map (\<lambda>i. i @ [CHR 0x0A]) ids)) None = (ids, None)"
    using rescan_lines [OF assms(1) all] by (simp add: scanIDs_def)
  ultimately show ?thesis by blast
qed

theorem extraction_idempotent_witness:
  "scanIDs sampleLib (''12'' @ [CHR 0x0A] @ ''56'' @ [CHR 0xD9, CHR 0xA3]) None
     = ([''12'', ''56'' @ [CHR 0xD9, CHR 0xA3]], None)"
proof -
  have t: "tablesOK sampleLib" by (simp add: tablesOK_def sampleLib_def)
  have s: "scanIDs sampleLib (''  12 '' @ [CHR 0x0D, CHR 0x0A] @ ''# 34'' @ [CHR 0x0A]
      @ ''x?urunno=56'' @ [CHR 0xD9, CHR 0xA3] @ ''z'') None
    = ([''12'', ''56'' @ [CHR 0xD9, CHR 0xA3]], None)"
    by code_simp
  have j: "joinLines [''12'', ''56'' @ [CHR 0xD9, CHR 0xA3]]
      = ''12'' @ [CHR 0x0A] @ ''56'' @ [CHR 0xD9, CHR 0xA3]" by simp
  from extraction_idempotent [OF t s] show ?thesis unfolding j by blast
qed

end
